theory Spec2Isabelle
  imports Main "HOL-Library.Word" "HOL-Library.Signed_Division"
begin

section \<open>The ring of rte\_ring.h, executed by one thread\<close>

text \<open>
  The model follows \<^verbatim>\<open>src/rte_ring.h\<close> function by function. One thread runs at a
  time: an atomic load reads the counter, a compare-and-swap sees the value that was just
  loaded, and a spin loop on a counter that nobody else changes never ends (the value
  \<open>None\<close>). What C leaves undefined (division by zero, signed overflow, a copy outside
  a buffer) is an \<open>error\<close> value.
\<close>

subsection \<open>Data\<close>

type_synonym uint32_t = "32 word"
type_synonym byte = "8 word"

text \<open>\<^verbatim>\<open>enum rte_ring_queue_behavior\<close>.\<close>

datatype rte_ring_queue_behavior = RTE_RING_QUEUE_FIXED | RTE_RING_QUEUE_VARIABLE

text \<open>
  \<^verbatim>\<open>struct rte_ring\<close>. The fields \<^verbatim>\<open>size\<close> and \<^verbatim>\<open>mask\<close> are \<open>size_r\<close> and
  \<open>mask_r\<close> here. The four counter pointers and \<^verbatim>\<open>data\<close> point into the shared block
  at the fixed, disjoint offsets 0, 64, 128, 192 and 512 that \<^verbatim>\<open>rte_ring_create\<close> gives
  them; each field below holds what its pointer points to, \<open>data\<close> being the bytes from
  offset 512 to the end of the block.
\<close>

record rte_ring =
  size_r :: uint32_t
  mask_r :: uint32_t
  capacity :: uint32_t
  elemlen :: uint32_t
  prod_head :: uint32_t
  prod_tail :: uint32_t
  cons_head :: uint32_t
  cons_tail :: uint32_t
  data :: "byte list"

text \<open>What the C standard leaves undefined, by kind.\<close>

datatype error =
    DivByZero         \<comment> \<open>\<^verbatim>\<open>/\<close> or \<^verbatim>\<open>%\<close> by zero\<close>
  | SignedOverflow    \<comment> \<open>overflow of an \<^verbatim>\<open>int\<close>\<close>
  | SrcOverrun        \<comment> \<open>\<^verbatim>\<open>memcpy\<close> reads past the end of its source\<close>
  | DstOverrun        \<comment> \<open>\<^verbatim>\<open>memcpy\<close> or \<^verbatim>\<open>memset\<close> writes past the end of its destination\<close>
  | UninitRead        \<comment> \<open>a local variable is read before it is written\<close>

subsection \<open>Conversions between \<^verbatim>\<open>int\<close> and \<^verbatim>\<open>uint32_t\<close>\<close>

text \<open>
  \<^verbatim>\<open>int free_entries\<close> receives a \<^verbatim>\<open>uint32_t\<close> and is compared with and assigned to
  an \<^verbatim>\<open>unsigned int\<close>: both conversions keep the 32 bits (gcc's rule for the first, the
  standard's for the second).
\<close>

definition int_of_uint32 :: "uint32_t \<Rightarrow> int" where
  "int_of_uint32 w = sint w"

definition uint32_of_int :: "int \<Rightarrow> uint32_t" where
  "uint32_of_int i = word_of_int i"

definition INT_MAX :: nat where
  "INT_MAX = 2147483647"

subsection \<open>Primitives\<close>

text \<open>
  \<^verbatim>\<open>__atomic_compare_exchange_n(ptr, expected, desired, ...)\<close>: the result is the
  success flag, the new content of \<^verbatim>\<open>*ptr\<close> and the new content of \<^verbatim>\<open>*expected\<close>.
\<close>

definition atomic_compare_exchange_n ::
  "uint32_t \<Rightarrow> uint32_t \<Rightarrow> uint32_t \<Rightarrow> bool \<times> uint32_t \<times> uint32_t" where
  "atomic_compare_exchange_n cur expected desired =
     (if cur = expected then (True, desired, expected) else (False, cur, cur))"

text \<open>
  \<^verbatim>\<open>memcpy(dst + doff, src + soff, len)\<close> on two buffers of known length: the
  destination with \<open>len\<close> bytes replaced, or the overrun.
\<close>

definition memcpy :: "byte list \<Rightarrow> nat \<Rightarrow> byte list \<Rightarrow> nat \<Rightarrow> nat \<Rightarrow> error + byte list" where
  "memcpy dst doff src soff len =
     (if length src < soff + len then Inl SrcOverrun
      else if length dst < doff + len then Inl DstOverrun
      else Inr (take doff dst @ take len (drop soff src) @ drop (doff + len) dst))"

subsection \<open>\<^verbatim>\<open>update_tail\<close>\<close>

text \<open>
  \<^verbatim>\<open>while (*tail != old_val) _mm_pause();  __atomic_store_n(tail, new_val, ...)\<close>.
  The argument \<open>tail\<close> is the content of \<^verbatim>\<open>*tail\<close>, the result the value stored
  there. \<^verbatim>\<open>head\<close> is not used by the C function either.
\<close>

partial_function (option) update_tail ::
  "uint32_t \<Rightarrow> uint32_t \<Rightarrow> uint32_t \<Rightarrow> uint32_t \<Rightarrow> uint32_t option" where
  "update_tail head tail old_val new_val =
     (if tail \<noteq> old_val then update_tail head tail old_val new_val else Some new_val)"

declare update_tail.simps [code]

subsection \<open>\<^verbatim>\<open>__rte_ring_move_prod_head\<close> and \<^verbatim>\<open>__rte_ring_move_cons_head\<close>\<close>

text \<open>
  \<open>max_n\<close> is the local \<^verbatim>\<open>max\<close>, the count asked for. The result is the ring, the
  returned count, \<^verbatim>\<open>*old_head\<close> and \<^verbatim>\<open>*new_head\<close>; the
  last is \<open>None\<close> on the path that returns 0 before \<^verbatim>\<open>*new_head\<close> is written.
\<close>

partial_function (option) rte_ring_move_prod_head ::
  "rte_ring \<Rightarrow> uint32_t \<Rightarrow> rte_ring_queue_behavior \<Rightarrow>
   (error + rte_ring \<times> uint32_t \<times> uint32_t \<times> uint32_t option) option" where
  "rte_ring_move_prod_head r max_n behavior =
     (let old_head = prod_head r in
      if size_r r = 0 then Some (Inl DivByZero)
      else
        let free_entries = int_of_uint32 ((capacity r + cons_tail r - old_head) mod size_r r);
            n = (if max_n > uint32_of_int free_entries
                 then uint32_of_int (if behavior = RTE_RING_QUEUE_FIXED then 0 else free_entries)
                 else max_n)
        in if n = 0 then Some (Inr (r, 0, old_head, None))
           else
             let new_head = (old_head + n) mod size_r r;
                 cas = atomic_compare_exchange_n (prod_head r) old_head new_head
             in if \<not> fst cas
                then rte_ring_move_prod_head (r\<lparr>prod_head := fst (snd cas)\<rparr>) max_n behavior
                else Some (Inr (r\<lparr>prod_head := fst (snd cas)\<rparr>, n, snd (snd cas), Some new_head)))"

declare rte_ring_move_prod_head.simps [code]

text \<open>Here the result has \<^verbatim>\<open>*entries\<close> as its last component.\<close>

partial_function (option) rte_ring_move_cons_head ::
  "rte_ring \<Rightarrow> uint32_t \<Rightarrow> rte_ring_queue_behavior \<Rightarrow>
   (error + rte_ring \<times> uint32_t \<times> uint32_t \<times> uint32_t option \<times> uint32_t) option" where
  "rte_ring_move_cons_head r max_n behavior =
     (let old_head = cons_head r in
      if size_r r = 0 then Some (Inl DivByZero)
      else
        let entries = (prod_tail r - old_head + size_r r) mod size_r r;
            n = (if max_n > entries
                 then (if behavior = RTE_RING_QUEUE_FIXED then 0 else entries)
                 else max_n)
        in if n = 0 then Some (Inr (r, 0, old_head, None, entries))
           else
             let new_head = (old_head + n) mod size_r r;
                 cas = atomic_compare_exchange_n (cons_head r) old_head new_head
             in if \<not> fst cas
                then rte_ring_move_cons_head (r\<lparr>cons_head := fst (snd cas)\<rparr>) max_n behavior
                else Some (Inr (r\<lparr>cons_head := fst (snd cas)\<rparr>, n, snd (snd cas),
                                Some new_head, entries)))"

declare rte_ring_move_cons_head.simps [code]

subsection \<open>The copy loops\<close>

text \<open>
  \<^verbatim>\<open>((head + i) % size) * r->elemlen\<close>, computed in \<^verbatim>\<open>uint32_t\<close>: the byte offset of a
  slot from \<^verbatim>\<open>r->data\<close>.
\<close>

definition slot_offset :: "rte_ring \<Rightarrow> uint32_t \<Rightarrow> uint32_t \<Rightarrow> nat" where
  "slot_offset r head i = unat (((head + i) mod size_r r) * elemlen r)"

text \<open>\<^verbatim>\<open>i * r->elemlen\<close>, computed in \<^verbatim>\<open>uint32_t\<close>: the byte offset in the caller's table.\<close>

definition table_offset :: "rte_ring \<Rightarrow> uint32_t \<Rightarrow> nat" where
  "table_offset r i = unat (i * elemlen r)"

text \<open>
  \<^verbatim>\<open>for (i = 0; i < n; i++) memcpy(r->data + ..., obj_table + i*r->elemlen, r->elemlen)\<close>
  from iteration \<open>i\<close> on. \<^verbatim>\<open>i\<close> is an \<^verbatim>\<open>int\<close> that starts at 0, so the unsigned
  comparison \<^verbatim>\<open>i < n\<close> is \<open>i < unat n\<close>, and \<^verbatim>\<open>i++\<close> overflows at \<open>INT_MAX\<close>.
\<close>

function enqueue_copy ::
  "rte_ring \<Rightarrow> byte list \<Rightarrow> uint32_t \<Rightarrow> uint32_t \<Rightarrow> nat \<Rightarrow> error + rte_ring" where
  "enqueue_copy r obj_table prod_head' n i =
     (if i < unat n then
        (case memcpy (data r) (slot_offset r prod_head' (of_nat i))
                     obj_table (table_offset r (of_nat i)) (unat (elemlen r)) of
           Inl e \<Rightarrow> Inl e
         | Inr d \<Rightarrow>
             if i = INT_MAX then Inl SignedOverflow
             else enqueue_copy (r\<lparr>data := d\<rparr>) obj_table prod_head' n (Suc i))
      else Inr r)"
  by pat_completeness auto
termination
  by (relation "measure (\<lambda>(r, obj_table, prod_head', n, i). unat n - i)") auto

text \<open>
  \<^verbatim>\<open>for (i = 0; i < n; i++) memcpy(obj_table + i*r->elemlen, r->data + ..., r->elemlen)\<close>:
  the ring is only read, the result is the caller's table.
\<close>

function dequeue_copy ::
  "rte_ring \<Rightarrow> byte list \<Rightarrow> uint32_t \<Rightarrow> uint32_t \<Rightarrow> nat \<Rightarrow> error + byte list" where
  "dequeue_copy r obj_table cons_head' n i =
     (if i < unat n then
        (case memcpy obj_table (table_offset r (of_nat i))
                     (data r) (slot_offset r cons_head' (of_nat i)) (unat (elemlen r)) of
           Inl e \<Rightarrow> Inl e
         | Inr t \<Rightarrow>
             if i = INT_MAX then Inl SignedOverflow
             else dequeue_copy r t cons_head' n (Suc i))
      else Inr obj_table)"
  by pat_completeness auto
termination
  by (relation "measure (\<lambda>(r, obj_table, cons_head', n, i). unat n - i)") auto

subsection \<open>\<^verbatim>\<open>__rte_ring_do_enqueue\<close> and \<^verbatim>\<open>__rte_ring_do_dequeue\<close>\<close>

text \<open>
  The result is the ring and the returned count. The \<^verbatim>\<open>printf\<close> in the enqueue loop
  only prints and is left out.
\<close>

definition rte_ring_do_enqueue ::
  "rte_ring \<Rightarrow> byte list \<Rightarrow> uint32_t \<Rightarrow> rte_ring_queue_behavior \<Rightarrow>
   (error + rte_ring \<times> uint32_t) option" where
  "rte_ring_do_enqueue r obj_table n behavior =
     (case rte_ring_move_prod_head r n behavior of
        None \<Rightarrow> None
      | Some (Inl e) \<Rightarrow> Some (Inl e)
      | Some (Inr (r1, n1, prod_head', prod_next)) \<Rightarrow>
          if n1 = 0 then Some (Inr (r1, n1))
          else
            (case enqueue_copy r1 obj_table prod_head' n1 0 of
               Inl e \<Rightarrow> Some (Inl e)
             | Inr r2 \<Rightarrow>
                 (case prod_next of
                    None \<Rightarrow> Some (Inl UninitRead)
                  | Some next \<Rightarrow>
                      (case update_tail (prod_head r2) (prod_tail r2) prod_head' next of
                         None \<Rightarrow> None
                       | Some t \<Rightarrow> Some (Inr (r2\<lparr>prod_tail := t\<rparr>, n1))))))"

text \<open>The result is the ring, the caller's table and the returned count.\<close>

definition rte_ring_do_dequeue ::
  "rte_ring \<Rightarrow> byte list \<Rightarrow> uint32_t \<Rightarrow> rte_ring_queue_behavior \<Rightarrow>
   (error + rte_ring \<times> byte list \<times> uint32_t) option" where
  "rte_ring_do_dequeue r obj_table n behavior =
     (case rte_ring_move_cons_head r n behavior of
        None \<Rightarrow> None
      | Some (Inl e) \<Rightarrow> Some (Inl e)
      | Some (Inr (r1, n1, cons_head', cons_next, entries)) \<Rightarrow>
          if n1 = 0 then Some (Inr (r1, obj_table, n1))
          else
            (case dequeue_copy r1 obj_table cons_head' n1 0 of
               Inl e \<Rightarrow> Some (Inl e)
             | Inr t \<Rightarrow>
                 (case cons_next of
                    None \<Rightarrow> Some (Inl UninitRead)
                  | Some next \<Rightarrow>
                      (case update_tail (cons_head r1) (cons_tail r1) cons_head' next of
                         None \<Rightarrow> None
                       | Some ct \<Rightarrow> Some (Inr (r1\<lparr>cons_tail := ct\<rparr>, t, n1))))))"

subsection \<open>The public operations\<close>

definition rte_ring_enqueue_bulk ::
  "rte_ring \<Rightarrow> byte list \<Rightarrow> uint32_t \<Rightarrow> (error + rte_ring \<times> uint32_t) option" where
  "rte_ring_enqueue_bulk r obj_table n =
     rte_ring_do_enqueue r obj_table n RTE_RING_QUEUE_VARIABLE"

text \<open>
  The two single-element forms return the count of their bulk form converted to
  \<^verbatim>\<open>int\<close>; the model keeps it as it is.
\<close>

definition rte_ring_enqueue :: "rte_ring \<Rightarrow> byte list \<Rightarrow> (error + rte_ring \<times> uint32_t) option" where
  "rte_ring_enqueue r obj = rte_ring_enqueue_bulk r obj 1"

definition rte_ring_dequeue_bulk ::
  "rte_ring \<Rightarrow> byte list \<Rightarrow> uint32_t \<Rightarrow> (error + rte_ring \<times> byte list \<times> uint32_t) option" where
  "rte_ring_dequeue_bulk r obj_table n =
     rte_ring_do_dequeue r obj_table n RTE_RING_QUEUE_FIXED"

definition rte_ring_dequeue ::
  "rte_ring \<Rightarrow> byte list \<Rightarrow> (error + rte_ring \<times> byte list \<times> uint32_t) option" where
  "rte_ring_dequeue r obj_p = rte_ring_dequeue_bulk r obj_p 1"

text \<open>
  \<^verbatim>\<open>rte_ring_create(p, totallen, elemlen)\<close>, both lengths being \<^verbatim>\<open>int\<close>, read here
  with \<open>sint\<close>. \<^verbatim>\<open>(totallen - 512) / elemlen\<close> is a signed division that truncates
  (\<open>sdiv\<close>), converted to \<^verbatim>\<open>uint32_t\<close> by the assignment. \<^verbatim>\<open>memset(p, 0, totallen)\<close>
  clears the four counters and the data; a negative \<^verbatim>\<open>totallen\<close> becomes a huge
  \<^verbatim>\<open>size_t\<close>. The block \<^verbatim>\<open>p\<close> has \<^verbatim>\<open>totallen\<close> bytes, of which the data region is what
  follows the first 512 (nothing, when the block is shorter). \<^verbatim>\<open>malloc\<close> is taken to
  succeed. The record can only show counters that exist: the statements about created
  rings take a block of at least 196 bytes, which holds the last counter at offset 192.
\<close>

definition rte_ring_create :: "32 word \<Rightarrow> 32 word \<Rightarrow> error + rte_ring" where
  "rte_ring_create totallen elemlen' =
     (if sint totallen - 512 < - 2147483648 then Inl SignedOverflow
      else if sint elemlen' = 0 then Inl DivByZero
      else if sint totallen - 512 = - 2147483648 \<and> sint elemlen' = - 1 then Inl SignedOverflow
      else if sint totallen < 0 then Inl DstOverrun
      else Inr \<lparr>size_r = word_of_int ((sint totallen - 512) sdiv sint elemlen'),
                mask_r = word_of_int ((sint totallen - 512) sdiv sint elemlen') - 1,
                capacity = word_of_int ((sint totallen - 512) sdiv sint elemlen') - 1,
                elemlen = elemlen',
                prod_head = 0, prod_tail = 0, cons_head = 0, cons_tail = 0,
                data = replicate (nat (sint totallen - 512)) 0\<rparr>)"

text \<open>
  The usage that \<^verbatim>\<open>ring_info\<close> prints:
  \<^verbatim>\<open>(*r->prod_head - *r->cons_head + r->size) % r->size\<close>.
\<close>

definition ring_usage :: "rte_ring \<Rightarrow> error + uint32_t" where
  "ring_usage r =
     (if size_r r = 0 then Inl DivByZero
      else Inr ((prod_head r - cons_head r + size_r r) mod size_r r))"

text \<open>An \<^verbatim>\<open>int\<close> in memory on the x86 the header is written for: four bytes, lowest first.\<close>

definition int_bytes :: "32 word \<Rightarrow> byte list" where
  "int_bytes w = [ucast w, ucast (drop_bit 8 w), ucast (drop_bit 16 w), ucast (drop_bit 24 w)]"

definition ints_bytes :: "32 word list \<Rightarrow> byte list" where
  "ints_bytes ws = concat (map int_bytes ws)"


section \<open>Notions used by the statements\<close>

text \<open>
  The count a head move grants: \<open>n\<close> when \<open>n\<close> slots are available, else nothing
  (\<open>RTE_RING_QUEUE_FIXED\<close>) or what is available (\<open>RTE_RING_QUEUE_VARIABLE\<close>). It is
  the value of \<^verbatim>\<open>n\<close> after \<^verbatim>\<open>if (n > free_entries) n = ...\<close>.
\<close>

definition granted :: "uint32_t \<Rightarrow> uint32_t \<Rightarrow> rte_ring_queue_behavior \<Rightarrow> uint32_t" where
  "granted n avail behavior =
     (if n > avail then (if behavior = RTE_RING_QUEUE_FIXED then 0 else avail) else n)"

text \<open>The expressions that the two head moves assign to \<^verbatim>\<open>free_entries\<close> and \<^verbatim>\<open>*entries\<close>.\<close>

definition free_entries :: "rte_ring \<Rightarrow> uint32_t" where
  "free_entries r = (capacity r + cons_tail r - prod_head r) mod size_r r"

definition entries :: "rte_ring \<Rightarrow> uint32_t" where
  "entries r = (prod_tail r - cons_head r + size_r r) mod size_r r"

text \<open>
  A ring as \<^verbatim>\<open>rte_ring_create\<close> lays it out from an element length of at least 1 and a
  block with room for at least one element after the first 512 bytes: at least one slot,
  \<open>capacity\<close> one less than the slot count, and the slots inside the data region.
\<close>

definition ring_wf :: "rte_ring \<Rightarrow> bool" where
  "ring_wf r \<longleftrightarrow>
     size_r r \<noteq> 0 \<and> capacity r = size_r r - 1 \<and> unat (size_r r) < 2 ^ 31 \<and>
     unat (size_r r) * unat (elemlen r) \<le> length (data r) \<and> length (data r) < 2 ^ 32"

text \<open>No reservation in flight: each tail has caught up with its head.\<close>

definition quiescent :: "rte_ring \<Rightarrow> bool" where
  "quiescent r \<longleftrightarrow>
     prod_tail r = prod_head r \<and> cons_tail r = cons_head r \<and>
     prod_head r < size_r r \<and> cons_head r < size_r r"

text \<open>
  A sequence of calls by one thread, as the loops of \<^verbatim>\<open>main.c\<close> make them. Each call
  brings its table and count; \<open>run_ops\<close> also keeps the number of elements taken in minus
  the number given out, from the counts the calls return.
\<close>

datatype ring_op =
    Enqueue "byte list" uint32_t rte_ring_queue_behavior
  | Dequeue "byte list" uint32_t rte_ring_queue_behavior

fun apply_op :: "rte_ring \<Rightarrow> ring_op \<Rightarrow> (error + rte_ring \<times> int) option" where
  "apply_op r (Enqueue obj_table n behavior) =
     (case rte_ring_do_enqueue r obj_table n behavior of
        None \<Rightarrow> None
      | Some (Inl e) \<Rightarrow> Some (Inl e)
      | Some (Inr (r', k)) \<Rightarrow> Some (Inr (r', uint k)))"
| "apply_op r (Dequeue obj_table n behavior) =
     (case rte_ring_do_dequeue r obj_table n behavior of
        None \<Rightarrow> None
      | Some (Inl e) \<Rightarrow> Some (Inl e)
      | Some (Inr (r', t, k)) \<Rightarrow> Some (Inr (r', - uint k)))"

fun run_ops :: "rte_ring \<Rightarrow> int \<Rightarrow> ring_op list \<Rightarrow> (error + rte_ring \<times> int) option" where
  "run_ops r held [] = Some (Inr (r, held))"
| "run_ops r held (x # xs) =
     (case apply_op r x of
        None \<Rightarrow> None
      | Some (Inl e) \<Rightarrow> Some (Inl e)
      | Some (Inr (r', d)) \<Rightarrow> run_ops r' (held + d) xs)"

text \<open>The table a call needs: \<open>n\<close> elements of the ring's element length.\<close>

fun table_fits :: "rte_ring \<Rightarrow> ring_op \<Rightarrow> bool" where
  "table_fits r (Enqueue obj_table n behavior) = (unat n * unat (elemlen r) \<le> length obj_table)"
| "table_fits r (Dequeue obj_table n behavior) = (unat n * unat (elemlen r) \<le> length obj_table)"

text \<open>
  A ring of 8 slots of one \<^verbatim>\<open>int\<close> each, as \<^verbatim>\<open>rte_ring_create(p, 544, 4)\<close> lays it
  out, with the given counters and slot contents.
\<close>

definition ring8 ::
  "uint32_t \<Rightarrow> uint32_t \<Rightarrow> uint32_t \<Rightarrow> uint32_t \<Rightarrow> 32 word list \<Rightarrow> rte_ring" where
  "ring8 ph pt ch ct slots =
     \<lparr>size_r = 8, mask_r = 7, capacity = 7, elemlen = 4,
      prod_head = ph, prod_tail = pt, cons_head = ch, cons_tail = ct,
      data = ints_bytes slots\<rparr>"

section \<open>The loops, unfolded\<close>

lemma update_tail_same: "update_tail h t t n = Some n"
  by (subst update_tail.simps) simp

lemma update_tail_Some: "update_tail h t old n = Some y \<Longrightarrow> t = old \<and> y = n"
  by (erule update_tail.raw_induct [rotated]) (auto split: if_splits)

lemma update_tail_diff: "t \<noteq> old \<Longrightarrow> update_tail h t old n = None"
  using update_tail_Some [of h t old n] by (cases "update_tail h t old n") auto

lemma int_uint32_roundtrip: "uint32_of_int (int_of_uint32 w) = w"
  by (simp add: uint32_of_int_def int_of_uint32_def)

lemma uint32_of_int_0: "uint32_of_int 0 = 0"
  by (simp add: uint32_of_int_def)

text \<open>
  With one thread the compare-and-swap finds the head it has just loaded, so each head
  move runs its loop body once.
\<close>

lemma move_prod_head_unfold:
  "rte_ring_move_prod_head r n behavior =
     (if size_r r = 0 then Some (Inl DivByZero)
      else if granted n (free_entries r) behavior = 0 then Some (Inr (r, 0, prod_head r, None))
      else Some (Inr (r\<lparr>prod_head := (prod_head r + granted n (free_entries r) behavior) mod size_r r\<rparr>,
                      granted n (free_entries r) behavior, prod_head r,
                      Some ((prod_head r + granted n (free_entries r) behavior) mod size_r r))))"
  by (subst rte_ring_move_prod_head.simps)
     (simp add: Let_def atomic_compare_exchange_n_def int_uint32_roundtrip granted_def
        free_entries_def if_distrib [of uint32_of_int] uint32_of_int_0)

lemma move_cons_head_unfold:
  "rte_ring_move_cons_head r n behavior =
     (if size_r r = 0 then Some (Inl DivByZero)
      else if granted n (entries r) behavior = 0 then Some (Inr (r, 0, cons_head r, None, entries r))
      else Some (Inr (r\<lparr>cons_head := (cons_head r + granted n (entries r) behavior) mod size_r r\<rparr>,
                      granted n (entries r) behavior, cons_head r,
                      Some ((cons_head r + granted n (entries r) behavior) mod size_r r), entries r)))"
  by (subst rte_ring_move_cons_head.simps)
     (simp add: Let_def atomic_compare_exchange_n_def granted_def entries_def)


section \<open>The copies stay inside the buffers\<close>

lemma granted_le: "granted n avail b \<le> n" "granted n avail b \<le> avail"
  by (auto simp: granted_def)

lemma memcpy_length: "memcpy dst doff src soff len = Inr d \<Longrightarrow> length d = length dst"
  by (auto simp: memcpy_def split: if_splits)

lemma slot_index_less: "size_r r \<noteq> 0 \<Longrightarrow> unat ((head + i) mod size_r r) < unat (size_r r)"
  by (simp add: unat_mod_distrib unat_gt_0) 

lemma slot_offset_eq:
  assumes "ring_wf r"
  shows "slot_offset r head i = unat ((head + i) mod size_r r) * unat (elemlen r)"
proof -
  have "unat ((head + i) mod size_r r) < unat (size_r r)"
    using assms by (simp add: slot_index_less ring_wf_def)
  then have "unat ((head + i) mod size_r r) * unat (elemlen r) \<le> unat (size_r r) * unat (elemlen r)"
    by (simp add: mult_le_mono1)
  also have "\<dots> < 2 ^ 32" using assms by (simp add: ring_wf_def)
  finally show ?thesis
    unfolding slot_offset_def by (simp add: unat_mult_lem [THEN iffD1])
qed

lemma slot_offset_bound:
  assumes "ring_wf r"
  shows "slot_offset r head i + unat (elemlen r) \<le> unat (size_r r) * unat (elemlen r)"
proof -
  have "Suc (unat ((head + i) mod size_r r)) \<le> unat (size_r r)"
    using assms slot_index_less [of r head i] by (simp add: ring_wf_def)
  then have "Suc (unat ((head + i) mod size_r r)) * unat (elemlen r) \<le> unat (size_r r) * unat (elemlen r)"
    by (rule mult_le_mono1)
  then show ?thesis by (simp add: slot_offset_eq [OF assms])
qed

lemma table_offset_eq:
  fixes n :: uint32_t
  assumes "ring_wf r" "i < unat n" "unat n \<le> unat (size_r r)"
  shows "table_offset r (of_nat i) = i * unat (elemlen r)"
proof -
  have i: "unat (of_nat i :: 32 word) = i"
    using assms(2) le_unat_uoi [of i n] by simp
  have "i * unat (elemlen r) \<le> unat (size_r r) * unat (elemlen r)"
    using assms by (simp add: mult_le_mono1)
  also have "\<dots> < 2 ^ 32" using assms by (simp add: ring_wf_def)
  finally show ?thesis
    unfolding table_offset_def using i by (simp add: unat_mult_lem [THEN iffD1])
qed

lemma table_offset_bound:
  fixes n :: uint32_t
  assumes "ring_wf r" "i < unat n" "unat n \<le> unat (size_r r)"
    "unat n * unat (elemlen r) \<le> length tbl"
  shows "table_offset r (of_nat i) + unat (elemlen r) \<le> length tbl"
proof -
  have "Suc i * unat (elemlen r) \<le> unat n * unat (elemlen r)"
    using assms(2) by (intro mult_le_mono1) simp
  then show ?thesis using assms by (simp add: table_offset_eq [OF assms(1-3)])
qed


lemma enqueue_copy_data:
  "enqueue_copy r tbl h n i = Inr r' \<Longrightarrow> \<exists>d. r' = r\<lparr>data := d\<rparr> \<and> length d = length (data r)"
proof (induction r tbl h n i rule: enqueue_copy.induct)
  case (1 r tbl h n i)
  show ?case
  proof (cases "i < unat n")
    case False
    with "1.prems" have "r' = r" by simp
    then show ?thesis by (intro exI [of _ "data r"]) simp
  next
    case True
    with "1.prems" obtain d where
      d: "memcpy (data r) (slot_offset r h (of_nat i)) tbl (table_offset r (of_nat i)) (unat (elemlen r)) = Inr d"
      and ni: "i \<noteq> INT_MAX"
      and rec: "enqueue_copy (r\<lparr>data := d\<rparr>) tbl h n (Suc i) = Inr r'"
      by (auto split: sum.splits if_splits)
    from "1.IH" [OF True d ni rec] obtain d' where
      "r' = r\<lparr>data := d'\<rparr>" "length d' = length d" by auto
    with memcpy_length [OF d] show ?thesis by auto
  qed
qed

lemma enqueue_copy_no_overrun:
  "ring_wf r \<Longrightarrow> enqueue_copy r tbl h n i \<noteq> Inl DstOverrun"
proof (induction r tbl h n i rule: enqueue_copy.induct)
  case (1 r tbl h n i)
  show ?case
  proof (cases "i < unat n")
    case False
    then show ?thesis by simp
  next
    case True
    have fit: "slot_offset r h (of_nat i) + unat (elemlen r) \<le> length (data r)"
      using slot_offset_bound [OF "1.prems", of h "of_nat i"] "1.prems"
      by (simp add: ring_wf_def)
    show ?thesis
    proof (cases "memcpy (data r) (slot_offset r h (of_nat i)) tbl (table_offset r (of_nat i)) (unat (elemlen r))")
      case (Inl e)
      with fit have "e \<noteq> DstOverrun" by (auto simp: memcpy_def split: if_splits)
      with Inl True show ?thesis by simp
    next
      case (Inr d)
      have "ring_wf (r\<lparr>data := d\<rparr>)"
        using "1.prems" memcpy_length [OF Inr] by (simp add: ring_wf_def)
      with "1.IH" [OF True Inr] Inr True show ?thesis by (cases "i = INT_MAX") simp_all
    qed
  qed
qed

lemma enqueue_copy_ok:
  fixes n :: uint32_t
  assumes "ring_wf r" "unat n \<le> unat (size_r r)" "unat n * unat (elemlen r) \<le> length tbl"
  shows "\<exists>d. enqueue_copy r tbl h n i = Inr (r\<lparr>data := d\<rparr>) \<and> length d = length (data r)"
  using assms
proof (induction r tbl h n i rule: enqueue_copy.induct)
  case (1 r tbl h n i)
  show ?case
  proof (cases "i < unat n")
    case False
    then show ?thesis by (intro exI [of _ "data r"]) simp
  next
    case True
    have fit: "slot_offset r h (of_nat i) + unat (elemlen r) \<le> length (data r)"
      using slot_offset_bound [OF "1.prems"(1), of h "of_nat i"] "1.prems"(1)
      by (simp add: ring_wf_def)
    have tfit: "table_offset r (of_nat i) + unat (elemlen r) \<le> length tbl"
      using table_offset_bound [OF "1.prems"(1) True "1.prems"(2,3)] .
    from fit tfit obtain d where
      d: "memcpy (data r) (slot_offset r h (of_nat i)) tbl (table_offset r (of_nat i)) (unat (elemlen r)) = Inr d"
      by (auto simp: memcpy_def)
    have ni: "i \<noteq> INT_MAX"
      using True "1.prems"(1,2) by (simp add: ring_wf_def INT_MAX_def)
    have wf': "ring_wf (r\<lparr>data := d\<rparr>)"
      using "1.prems"(1) memcpy_length [OF d] by (simp add: ring_wf_def)
    from "1.IH" [OF True d ni wf'] "1.prems"(2,3) obtain d' where
      "enqueue_copy (r\<lparr>data := d\<rparr>) tbl h n (Suc i) = Inr (r\<lparr>data := d'\<rparr>)"
      "length d' = length d" by auto
    with True d ni memcpy_length [OF d] show ?thesis by auto
  qed
qed


lemma dequeue_copy_length:
  "dequeue_copy r tbl h n i = Inr t' \<Longrightarrow> length t' = length tbl"
proof (induction r tbl h n i rule: dequeue_copy.induct)
  case (1 r tbl h n i)
  show ?case
  proof (cases "i < unat n")
    case False
    with "1.prems" show ?thesis by simp
  next
    case True
    with "1.prems" obtain t where
      t: "memcpy tbl (table_offset r (of_nat i)) (data r) (slot_offset r h (of_nat i)) (unat (elemlen r)) = Inr t"
      and ni: "i \<noteq> INT_MAX"
      and rec: "dequeue_copy r t h n (Suc i) = Inr t'"
      by (auto split: sum.splits if_splits)
    from "1.IH" [OF True t ni rec] memcpy_length [OF t] show ?thesis by simp
  qed
qed

lemma dequeue_copy_no_overrun:
  "ring_wf r \<Longrightarrow> dequeue_copy r tbl h n i \<noteq> Inl SrcOverrun"
proof (induction r tbl h n i rule: dequeue_copy.induct)
  case (1 r tbl h n i)
  show ?case
  proof (cases "i < unat n")
    case False
    then show ?thesis by simp
  next
    case True
    have fit: "slot_offset r h (of_nat i) + unat (elemlen r) \<le> length (data r)"
      using slot_offset_bound [OF "1.prems", of h "of_nat i"] "1.prems"
      by (simp add: ring_wf_def)
    show ?thesis
    proof (cases "memcpy tbl (table_offset r (of_nat i)) (data r) (slot_offset r h (of_nat i)) (unat (elemlen r))")
      case (Inl e)
      with fit have "e \<noteq> SrcOverrun" by (auto simp: memcpy_def split: if_splits)
      with Inl True show ?thesis by simp
    next
      case (Inr t)
      with "1.IH" [OF True Inr _ "1.prems"] True show ?thesis by (cases "i = INT_MAX") simp_all
    qed
  qed
qed

lemma dequeue_copy_ok:
  fixes n :: uint32_t
  assumes "ring_wf r" "unat n \<le> unat (size_r r)" "unat n * unat (elemlen r) \<le> length tbl"
  shows "\<exists>t'. dequeue_copy r tbl h n i = Inr t' \<and> length t' = length tbl"
  using assms
proof (induction r tbl h n i rule: dequeue_copy.induct)
  case (1 r tbl h n i)
  show ?case
  proof (cases "i < unat n")
    case False
    then show ?thesis by simp
  next
    case True
    have fit: "slot_offset r h (of_nat i) + unat (elemlen r) \<le> length (data r)"
      using slot_offset_bound [OF "1.prems"(1), of h "of_nat i"] "1.prems"(1)
      by (simp add: ring_wf_def)
    have tfit: "table_offset r (of_nat i) + unat (elemlen r) \<le> length tbl"
      using table_offset_bound [OF "1.prems"(1) True "1.prems"(2,3)] .
    from fit tfit obtain t where
      t: "memcpy tbl (table_offset r (of_nat i)) (data r) (slot_offset r h (of_nat i)) (unat (elemlen r)) = Inr t"
      by (auto simp: memcpy_def)
    have ni: "i \<noteq> INT_MAX"
      using True "1.prems"(1,2) by (simp add: ring_wf_def INT_MAX_def)
    have len: "length t = length tbl" by (rule memcpy_length [OF t])
    from "1.IH" [OF True t ni "1.prems"(1,2)] "1.prems"(3) len obtain t' where
      "dequeue_copy r t h n (Suc i) = Inr t'" "length t' = length t" by auto
    with True t ni len show ?thesis by auto
  qed
qed

lemma granted_less_size:
  "size_r r \<noteq> 0 \<Longrightarrow> avail < size_r r \<Longrightarrow> unat (granted n avail b) \<le> unat (size_r r)"
  using granted_le(2) [of n avail b] by (simp add: word_le_nat_alt word_less_nat_alt)

lemma free_entries_less: "size_r r \<noteq> 0 \<Longrightarrow> free_entries r < size_r r"
  by (simp add: free_entries_def word_mod_less_divisor word_neq_0_conv)

lemma entries_less: "size_r r \<noteq> 0 \<Longrightarrow> entries r < size_r r"
  by (simp add: entries_def word_mod_less_divisor word_neq_0_conv)

text \<open>What an enqueue does to a ring whose producer tail has caught up.\<close>

lemma do_enqueue_ok:
  assumes wf: "ring_wf r" and tail: "prod_tail r = prod_head r"
    and tbl: "unat n * unat (elemlen r) \<le> length tbl"
  shows "\<exists>d. length d = length (data r) \<and>
           rte_ring_do_enqueue r tbl n b =
             Some (Inr (if granted n (free_entries r) b = 0 then r
                        else r\<lparr>prod_head := (prod_head r + granted n (free_entries r) b) mod size_r r,
                               prod_tail := (prod_head r + granted n (free_entries r) b) mod size_r r,
                               data := d\<rparr>,
                        granted n (free_entries r) b))"
proof (cases "granted n (free_entries r) b = 0")
  case True
  with wf show ?thesis
    by (intro exI [of _ "data r"])
       (simp add: rte_ring_do_enqueue_def move_prod_head_unfold ring_wf_def)
next
  case False
  let ?k = "granted n (free_entries r) b"
  let ?nh = "(prod_head r + ?k) mod size_r r"
  let ?r1 = "r\<lparr>prod_head := ?nh\<rparr>"
  have s0: "size_r r \<noteq> 0" using wf by (simp add: ring_wf_def)
  have wf1: "ring_wf ?r1" using wf by (simp add: ring_wf_def)
  have k1: "unat ?k \<le> unat (size_r ?r1)"
    using granted_less_size [OF s0 free_entries_less [OF s0]] by simp
  have "unat ?k \<le> unat n" using granted_le(1) [of n "free_entries r" b] by (simp add: word_le_nat_alt)
  then have "unat ?k * unat (elemlen r) \<le> unat n * unat (elemlen r)" by (rule mult_le_mono1)
  from this tbl have "unat ?k * unat (elemlen r) \<le> length tbl" by (rule le_trans)
  then have k2: "unat ?k * unat (elemlen ?r1) \<le> length tbl" by simp
  from enqueue_copy_ok [OF wf1 k1 k2, of "prod_head r" 0] obtain d where
    d: "enqueue_copy ?r1 tbl (prod_head r) ?k 0 = Inr (?r1\<lparr>data := d\<rparr>)"
    and len: "length d = length (data r)" by auto
  show ?thesis
    using False s0 d len tail
    by (intro exI [of _ d])
       (simp add: rte_ring_do_enqueue_def move_prod_head_unfold update_tail_same)
qed

lemma do_dequeue_ok:
  assumes wf: "ring_wf r" and tail: "cons_tail r = cons_head r"
    and tbl: "unat n * unat (elemlen r) \<le> length tbl"
  shows "\<exists>t. length t = length tbl \<and>
           rte_ring_do_dequeue r tbl n b =
             Some (Inr (if granted n (entries r) b = 0 then r
                        else r\<lparr>cons_head := (cons_head r + granted n (entries r) b) mod size_r r,
                               cons_tail := (cons_head r + granted n (entries r) b) mod size_r r\<rparr>,
                        t, granted n (entries r) b))"
proof (cases "granted n (entries r) b = 0")
  case True
  with wf show ?thesis
    by (intro exI [of _ tbl])
       (simp add: rte_ring_do_dequeue_def move_cons_head_unfold ring_wf_def)
next
  case False
  let ?k = "granted n (entries r) b"
  let ?nh = "(cons_head r + ?k) mod size_r r"
  let ?r1 = "r\<lparr>cons_head := ?nh\<rparr>"
  have s0: "size_r r \<noteq> 0" using wf by (simp add: ring_wf_def)
  have wf1: "ring_wf ?r1" using wf by (simp add: ring_wf_def)
  have k1: "unat ?k \<le> unat (size_r ?r1)"
    using granted_less_size [OF s0 entries_less [OF s0]] by simp
  have "unat ?k \<le> unat n" using granted_le(1) [of n "entries r" b] by (simp add: word_le_nat_alt)
  then have "unat ?k * unat (elemlen r) \<le> unat n * unat (elemlen r)" by (rule mult_le_mono1)
  from this tbl have "unat ?k * unat (elemlen r) \<le> length tbl" by (rule le_trans)
  then have k2: "unat ?k * unat (elemlen ?r1) \<le> length tbl" by simp
  from dequeue_copy_ok [OF wf1 k1 k2, of "cons_head r" 0] obtain t where
    t: "dequeue_copy ?r1 tbl (cons_head r) ?k 0 = Inr t"
    and len: "length t = length tbl" by auto
  show ?thesis
    using False s0 t len tail
    by (intro exI [of _ t])
       (simp add: rte_ring_do_dequeue_def move_cons_head_unfold update_tail_same)
qed

section \<open>Creation\<close>


lemma uint_eq_sint_nonneg:
  fixes w :: "'a::len word"
  assumes "0 \<le> sint w"
  shows "uint w = sint w"
proof -
  have "sint w < 2 ^ (LENGTH('a) - 1)" by (rule sint_lt)
  also have "\<dots> \<le> (2::int) ^ LENGTH('a)" by (rule power_increasing) simp_all
  finally have "take_bit LENGTH('a) (sint w) = sint w"
    using assms by (simp only: take_bit_int_eq_self)
  with uint_sint [of w] show ?thesis by (simp only:)
qed

lemma unat_eq_sint_nonneg:
  fixes w :: "'a::len word"
  shows "0 \<le> sint w \<Longrightarrow> int (unat w) = sint w"
  using uint_eq_sint_nonneg [of w] by (simp only: uint_nat)

lemma first_slot: "0 < (e::int) \<Longrightarrow> 512 + e \<le> t \<Longrightarrow> 1 \<le> (t - 512) div e"
  using pos_imp_zdiv_pos_iff [of e "t - 512"] by simp

lemma unat_word_of_int_small: 
  assumes "0 \<le> q" "q < 2 ^ 31" shows "unat (word_of_int q :: 32 word) = nat q"
proof -
  have "q < 2 ^ LENGTH(32)" using assms by simp
  with assms(1) have "uint (word_of_int q :: 32 word) = q"
    by (intro word_of_int_inverse [OF refl])
  then show ?thesis by (simp only: unat_eq_nat_uint)
qed

lemma int_div_mult_le: "0 < (e::int) \<Longrightarrow> (a div e) * e \<le> a"
  using div_mult_mod_eq [of a e] pos_mod_sign [of e a] by linarith

lemma sdiv_nonneg_pos: "0 \<le> a \<Longrightarrow> 0 < b \<Longrightarrow> a sdiv b = a div (b :: int)"
  by (cases "a = 0") (simp_all add: signed_divide_int_def)

lemma create_valid:
  assumes e: "0 < sint e" and t: "512 + sint e \<le> sint t"
  shows "rte_ring_create t e =
           Inr \<lparr>size_r = word_of_int ((sint t - 512) div sint e),
                mask_r = word_of_int ((sint t - 512) div sint e) - 1,
                capacity = word_of_int ((sint t - 512) div sint e) - 1,
                elemlen = e,
                prod_head = 0, prod_tail = 0, cons_head = 0, cons_tail = 0,
                data = replicate (nat (sint t - 512)) 0\<rparr>"
  using assms by (simp add: rte_ring_create_def sdiv_nonneg_pos)

lemma create_valid_wf:
  assumes e: "0 < sint e" and t: "512 + sint e \<le> sint t" and c: "rte_ring_create t e = Inr r"
  shows "ring_wf r" and "quiescent r" and "length (data r) = nat (sint t - 512)"
    and "elemlen r = e" and "prod_head r = 0" and "cons_head r = 0"
    and "unat (size_r r) * unat (elemlen r) \<le> nat (sint t - 512)"
proof -
  define q where "q = (sint t - 512) div sint e"
  have r: "r = \<lparr>size_r = word_of_int q, mask_r = word_of_int q - 1,
                capacity = word_of_int q - 1, elemlen = e,
                prod_head = 0, prod_tail = 0, cons_head = 0, cons_tail = 0,
                data = replicate (nat (sint t - 512)) 0\<rparr>"
    using create_valid [OF e t] c by (simp add: q_def)
  have tmax: "sint t < 2 ^ 31" using sint_lt [of t] by simp
  have q1: "1 \<le> q" unfolding q_def using e t by (rule first_slot)
  have qe: "q * sint e \<le> sint t - 512" unfolding q_def using e by (rule int_div_mult_le)
  have "q * 1 \<le> q * sint e" using e q1 by (intro mult_left_mono) simp_all
  with qe have qle: "q \<le> sint t - 512" by simp
  with tmax have q31: "q < 2 ^ 31" by simp
  have uq: "unat (word_of_int q :: 32 word) = nat q"
    using q1 q31 by (intro unat_word_of_int_small) simp_all
  have ue: "int (unat e) = sint e" using e by (intro unat_eq_sint_nonneg) simp
  have "int (nat q * unat e) = q * sint e" using q1 ue by simp
  with qe have fit: "nat q * unat e \<le> nat (sint t - 512)" by linarith
  have s0: "(word_of_int q :: 32 word) \<noteq> 0"
  proof
    assume "(word_of_int q :: 32 word) = 0"
    then have "unat (word_of_int q :: 32 word) = 0" by simp
    with uq q1 show False by simp
  qed
  have dlen: "nat (sint t - 512) < 2 ^ 32" using tmax by simp
  have q31n: "nat q < 2 ^ 31" using q31 q1 by simp
  show "ring_wf r"
    unfolding ring_wf_def using uq fit s0 dlen q31n by (simp add: r)
  show "quiescent r" using s0 by (simp add: quiescent_def r word_neq_0_conv)
  show "length (data r) = nat (sint t - 512)" "elemlen r = e" "prod_head r = 0" "cons_head r = 0"
    by (simp_all add: r)
  show "unat (size_r r) * unat (elemlen r) \<le> nat (sint t - 512)"
    using uq fit by (simp add: r)
qed


declare enqueue_copy.simps [simp del] dequeue_copy.simps [simp del]

lemma do_enqueue_no_overrun:
  assumes "ring_wf r"
  shows "rte_ring_do_enqueue r tbl n b \<noteq> Some (Inl DstOverrun)"
proof (cases "granted n (free_entries r) b = 0")
  case True
  with assms show ?thesis
    by (simp add: rte_ring_do_enqueue_def move_prod_head_unfold ring_wf_def)
next
  case False
  let ?r1 = "r\<lparr>prod_head := (prod_head r + granted n (free_entries r) b) mod size_r r\<rparr>"
  have "ring_wf ?r1" using assms by (simp add: ring_wf_def)
  from enqueue_copy_no_overrun [OF this, of tbl "prod_head r" "granted n (free_entries r) b" 0]
  show ?thesis
    using False assms
    by (auto simp: rte_ring_do_enqueue_def move_prod_head_unfold ring_wf_def
        split: sum.splits option.splits)
qed

lemma do_dequeue_no_overrun:
  assumes "ring_wf r"
  shows "rte_ring_do_dequeue r tbl n b \<noteq> Some (Inl SrcOverrun)"
proof (cases "granted n (entries r) b = 0")
  case True
  with assms show ?thesis
    by (simp add: rte_ring_do_dequeue_def move_cons_head_unfold ring_wf_def)
next
  case False
  let ?r1 = "r\<lparr>cons_head := (cons_head r + granted n (entries r) b) mod size_r r\<rparr>"
  have "ring_wf ?r1" using assms by (simp add: ring_wf_def)
  from dequeue_copy_no_overrun [OF this, of tbl "cons_head r" "granted n (entries r) b" 0]
  show ?thesis
    using False assms
    by (auto simp: rte_ring_do_dequeue_def move_cons_head_unfold ring_wf_def
        split: sum.splits option.splits)
qed

lemma granted_variable: "granted n avail RTE_RING_QUEUE_VARIABLE = min n avail"
  by (auto simp: granted_def min_def)

lemma granted_fixed: "granted n avail RTE_RING_QUEUE_FIXED = (if n \<le> avail then n else 0)"
  by (auto simp: granted_def)

lemma ring8_wf: "ring_wf (ring8 ph pt ch ct [a, b, c, d, e, f, g, h])"
  by (simp add: ring_wf_def ring8_def ints_bytes_def int_bytes_def)

section \<open>Counting the elements in the ring\<close>

lemma uint_word_of_int_range:
  assumes "0 \<le> z" "z < 4294967296"
  shows "uint (word_of_int z :: 32 word) = z"
proof -
  have "z < 2 ^ LENGTH(32)" using assms(2) by simp
  with assms(1) show ?thesis by (intro word_of_int_inverse [OF refl])
qed

lemma uint_less_size:
  fixes x s :: "32 word"
  shows "x < s \<Longrightarrow> uint x < uint s"
  by (simp add: word_less_def)

lemma uint_entries_expr:
  fixes x y s :: "32 word"
  assumes x: "x < s" and y: "y < s" and s: "uint s < 2147483648"
  shows "uint ((x - y + s) mod s) = (uint x - uint y) mod uint s"
proof -
  have ux: "uint x < uint s" and uy: "uint y < uint s"
    using x y by (simp_all add: uint_less_size)
  have "x - y + s = word_of_int (uint x - uint y + uint s)" by simp
  moreover have "0 \<le> uint x - uint y + uint s" "uint x - uint y + uint s < 4294967296"
    using ux uy s uint_ge_0 [of x] uint_ge_0 [of y] by linarith+
  ultimately have "uint (x - y + s) = uint x - uint y + uint s"
    by (simp only: uint_word_of_int_range)
  then show ?thesis by (simp add: uint_mod_distrib)
qed

lemma uint_free_expr:
  fixes x y s :: "32 word"
  assumes x: "x < s" and y: "y < s" and s: "uint s < 2147483648"
  shows "uint ((s - 1 + y - x) mod s) = (uint y - uint x - 1) mod uint s"
proof -
  have ux: "uint x < uint s" and uy: "uint y < uint s"
    using x y by (simp_all add: uint_less_size)
  have "s - 1 + y - x = word_of_int (uint s - 1 + uint y - uint x)" by simp
  moreover have "0 \<le> uint s - 1 + uint y - uint x" "uint s - 1 + uint y - uint x < 4294967296"
    using ux uy s uint_ge_0 [of x] uint_ge_0 [of y] by linarith+
  ultimately have "uint (s - 1 + y - x) = uint s - 1 + uint y - uint x"
    by (simp only: uint_word_of_int_range)
  moreover have "(uint s - 1 + uint y - uint x) mod uint s = (uint y - uint x - 1) mod uint s"
    using mod_add_self1 [of "uint s" "uint y - uint x - 1"] by (simp add: algebra_simps)
  ultimately show ?thesis by (simp add: uint_mod_distrib)
qed

lemma uint_advance_expr:
  fixes x k s :: "32 word"
  assumes x: "x < s" and k: "k < s" and s: "uint s < 2147483648"
  shows "uint ((x + k) mod s) = (uint x + uint k) mod uint s"
proof -
  have ux: "uint x < uint s" and uk: "uint k < uint s"
    using x k by (simp_all add: uint_less_size)
  have "x + k = word_of_int (uint x + uint k)" by simp
  moreover have "0 \<le> uint x + uint k" "uint x + uint k < 4294967296"
    using ux uk s uint_ge_0 [of x] uint_ge_0 [of k] by linarith+
  ultimately have "uint (x + k) = uint x + uint k"
    by (simp only: uint_word_of_int_range)
  then show ?thesis by (simp add: uint_mod_distrib)
qed

lemma neg_mod_complement:
  fixes x S :: int
  assumes "0 < S"
  shows "(- x - 1) mod S = S - 1 - x mod S"
proof -
  have "0 \<le> x mod S" "x mod S < S" using assms by simp_all
  then have "(S - 1 - x mod S) mod S = S - 1 - x mod S" by (intro mod_pos_pos_trivial) simp_all
  moreover have "(S - 1 - x mod S) mod S = (S - 1 - x) mod S" by (rule mod_diff_right_eq)
  moreover have "(S - 1 - x) mod S = (- x - 1) mod S"
    using mod_add_self1 [of S "- x - 1"] by (simp add: algebra_simps)
  ultimately show ?thesis by simp
qed


lemma wf_uint_size:
  assumes "ring_wf r"
  shows "0 < uint (size_r r) \<and> uint (size_r r) < 2147483648"
proof -
  have "unat (size_r r) < 2147483648" and "size_r r \<noteq> 0"
    using assms by (simp_all add: ring_wf_def)
  then have "0 < unat (size_r r)" "unat (size_r r) < 2147483648"
    by (simp_all add: unat_gt_0)
  then have "0 < int (unat (size_r r))" "int (unat (size_r r)) < 2147483648" by linarith+
  then show ?thesis by (simp only: uint_nat)
qed

lemma uint_entries:
  assumes "ring_wf r" "quiescent r"
  shows "uint (entries r) = (uint (prod_head r) - uint (cons_head r)) mod uint (size_r r)"
  using assms wf_uint_size [OF assms(1)]
  by (simp add: entries_def quiescent_def uint_entries_expr)

lemma uint_free_entries:
  assumes "ring_wf r" "quiescent r"
  shows "uint (free_entries r) = uint (size_r r) - 1 - uint (entries r)"
proof -
  have s: "0 < uint (size_r r)" "uint (size_r r) < 2147483648"
    using wf_uint_size [OF assms(1)] by simp_all
  have "free_entries r = (size_r r - 1 + cons_head r - prod_head r) mod size_r r"
    using assms by (simp add: free_entries_def ring_wf_def quiescent_def)
  then have "uint (free_entries r)
      = (uint (cons_head r) - uint (prod_head r) - 1) mod uint (size_r r)"
    using assms(2) s(2) by (simp add: quiescent_def uint_free_expr)
  also have "\<dots> = (- (uint (prod_head r) - uint (cons_head r)) - 1) mod uint (size_r r)"
    by (simp add: algebra_simps)
  also have "\<dots> = uint (size_r r) - 1
      - (uint (prod_head r) - uint (cons_head r)) mod uint (size_r r)"
    using s(1) by (rule neg_mod_complement)
  finally show ?thesis by (simp add: uint_entries [OF assms])
qed

lemma ring_usage_quiescent:
  "ring_wf r \<Longrightarrow> quiescent r \<Longrightarrow> ring_usage r = Inr (entries r)"
  by (simp add: ring_usage_def entries_def ring_wf_def quiescent_def)

lemma pair_eqD: "(a, b) = (c, d) \<Longrightarrow> c = a \<and> d = b"
  by simp

lemma triple_eqD: "(a, b, c) = (a', b', c') \<Longrightarrow> a' = a \<and> b' = b \<and> c' = c"
  by simp

lemma do_enqueue_result:
  assumes tail: "prod_tail r = prod_head r"
    and res: "rte_ring_do_enqueue r tbl n b = Some (Inr (r', k))"
  shows "k = granted n (free_entries r) b \<and>
         (\<exists>d. length d = length (data r) \<and>
              r' = (if k = 0 then r
                    else r\<lparr>prod_head := (prod_head r + k) mod size_r r,
                           prod_tail := (prod_head r + k) mod size_r r,
                           data := d\<rparr>))"
proof (cases "size_r r = 0")
  case True
  with res show ?thesis by (simp add: rte_ring_do_enqueue_def move_prod_head_unfold)
next
  case s0: False
  let ?k = "granted n (free_entries r) b"
  let ?nh = "(prod_head r + ?k) mod size_r r"
  let ?r1 = "r\<lparr>prod_head := ?nh\<rparr>"
  show ?thesis
  proof (cases "?k = 0")
    case True
    with s0 res have "r' = r" "k = 0"
      by (simp_all add: rte_ring_do_enqueue_def move_prod_head_unfold)
    with True show ?thesis by (intro conjI exI [of _ "data r"]) simp_all
  next
    case k0: False
    show ?thesis
    proof (cases "enqueue_copy ?r1 tbl (prod_head r) ?k 0")
      case (Inl e)
      with s0 k0 res show ?thesis
        by (simp add: rte_ring_do_enqueue_def move_prod_head_unfold)
    next
      case (Inr r2)
      from enqueue_copy_data [OF Inr] obtain d where
        r2: "r2 = ?r1\<lparr>data := d\<rparr>" and len: "length d = length (data r)" by auto
      from r2 tail have "update_tail (prod_head r2) (prod_tail r2) (prod_head r) ?nh = Some ?nh"
        by (simp add: update_tail_same)
      with s0 k0 Inr have eq: "rte_ring_do_enqueue r tbl n b = Some (Inr (r2\<lparr>prod_tail := ?nh\<rparr>, ?k))"
        by (simp add: rte_ring_do_enqueue_def move_prod_head_unfold)
      from res [unfolded eq] have "(r2\<lparr>prod_tail := ?nh\<rparr>, ?k) = (r', k)"
        by (simp only: option.inject sum.inject)
      then have "r' = r2\<lparr>prod_tail := ?nh\<rparr>" "k = ?k"
        by (rule pair_eqD [THEN conjunct1], rule pair_eqD [THEN conjunct2])
      with r2 k0 len show ?thesis by (intro conjI exI [of _ d]) simp_all
    qed
  qed
qed

lemma do_dequeue_result:
  assumes tail: "cons_tail r = cons_head r"
    and res: "rte_ring_do_dequeue r tbl n b = Some (Inr (r', t, k))"
  shows "k = granted n (entries r) b \<and> length t = length tbl \<and>
         r' = (if k = 0 then r
               else r\<lparr>cons_head := (cons_head r + k) mod size_r r,
                      cons_tail := (cons_head r + k) mod size_r r\<rparr>)"
proof (cases "size_r r = 0")
  case True
  with res show ?thesis by (simp add: rte_ring_do_dequeue_def move_cons_head_unfold)
next
  case s0: False
  let ?k = "granted n (entries r) b"
  let ?nh = "(cons_head r + ?k) mod size_r r"
  let ?r1 = "r\<lparr>cons_head := ?nh\<rparr>"
  show ?thesis
  proof (cases "?k = 0")
    case True
    with s0 res show ?thesis
      by (simp add: rte_ring_do_dequeue_def move_cons_head_unfold)
  next
    case k0: False
    show ?thesis
    proof (cases "dequeue_copy ?r1 tbl (cons_head r) ?k 0")
      case (Inl e)
      with s0 k0 res show ?thesis
        by (simp add: rte_ring_do_dequeue_def move_cons_head_unfold)
    next
      case (Inr t')
      from tail have "update_tail (cons_head ?r1) (cons_tail ?r1) (cons_head r) ?nh = Some ?nh"
        by (simp add: update_tail_same)
      with s0 k0 Inr have eq: "rte_ring_do_dequeue r tbl n b = Some (Inr (?r1\<lparr>cons_tail := ?nh\<rparr>, t', ?k))"
        by (simp add: rte_ring_do_dequeue_def move_cons_head_unfold)
      from res [unfolded eq] have "(?r1\<lparr>cons_tail := ?nh\<rparr>, t', ?k) = (r', t, k)"
        by (simp only: option.inject sum.inject)
      then have "r' = ?r1\<lparr>cons_tail := ?nh\<rparr>" "k = ?k" "t = t'"
        by (rule triple_eqD [THEN conjunct1], rule triple_eqD [THEN conjunct2, THEN conjunct2],
            rule triple_eqD [THEN conjunct2, THEN conjunct1])
      with k0 dequeue_copy_length [OF Inr] show ?thesis by simp
    qed
  qed
qed

lemma do_enqueue_returns:
  assumes tail: "prod_tail r = prod_head r"
  shows "rte_ring_do_enqueue r tbl n b \<noteq> None"
proof (cases "size_r r = 0 \<or> granted n (free_entries r) b = 0")
  case True
  then show ?thesis by (auto simp: rte_ring_do_enqueue_def move_prod_head_unfold)
next
  case False
  let ?k = "granted n (free_entries r) b"
  let ?nh = "(prod_head r + ?k) mod size_r r"
  let ?r1 = "r\<lparr>prod_head := ?nh\<rparr>"
  show ?thesis
  proof (cases "enqueue_copy ?r1 tbl (prod_head r) ?k 0")
    case (Inl e)
    with False show ?thesis by (simp add: rte_ring_do_enqueue_def move_prod_head_unfold)
  next
    case (Inr r2)
    from enqueue_copy_data [OF Inr] tail have "prod_tail r2 = prod_head r" by auto
    with False Inr show ?thesis
      by (simp add: rte_ring_do_enqueue_def move_prod_head_unfold update_tail_same)
  qed
qed

lemma do_dequeue_returns:
  assumes tail: "cons_tail r = cons_head r"
  shows "rte_ring_do_dequeue r tbl n b \<noteq> None"
proof (cases "size_r r = 0 \<or> granted n (entries r) b = 0")
  case True
  then show ?thesis by (auto simp: rte_ring_do_dequeue_def move_cons_head_unfold)
next
  case False
  let ?k = "granted n (entries r) b"
  let ?nh = "(cons_head r + ?k) mod size_r r"
  let ?r1 = "r\<lparr>cons_head := ?nh\<rparr>"
  show ?thesis
  proof (cases "dequeue_copy ?r1 tbl (cons_head r) ?k 0")
    case (Inl e)
    with False show ?thesis by (simp add: rte_ring_do_dequeue_def move_cons_head_unfold)
  next
    case (Inr t)
    with False tail show ?thesis
      by (simp add: rte_ring_do_dequeue_def move_cons_head_unfold update_tail_same)
  qed
qed

text \<open>One call keeps the ring well formed and quiescent and changes the count by what it returns.\<close>

lemma enqueue_step:
  assumes wf: "ring_wf r" and q: "quiescent r"
    and res: "rte_ring_do_enqueue r tbl n b = Some (Inr (r', k))"
  shows "ring_wf r' \<and> quiescent r' \<and> size_r r' = size_r r \<and> capacity r' = capacity r \<and>
         elemlen r' = elemlen r \<and> uint (entries r') = uint (entries r) + uint k"
proof (cases "k = 0")
  case True
  with do_enqueue_result [OF _ res] q wf show ?thesis by (simp add: quiescent_def)
next
  case False
  define S where "S = uint (size_r r)"
  define a where "a = uint (prod_head r)"
  define c where "c = uint (cons_head r)"
  define nh where "nh = (prod_head r + k) mod size_r r"
  have pt: "prod_tail r = prod_head r" using q by (simp add: quiescent_def)
  from do_enqueue_result [OF pt res] False obtain d where
    k: "k = granted n (free_entries r) b" and len: "length d = length (data r)"
    and r': "r' = r\<lparr>prod_head := nh, prod_tail := nh, data := d\<rparr>"
    by (auto simp: nh_def)
  have S: "0 < S" "S < 2147483648" using wf_uint_size [OF wf] by (simp_all add: S_def)
  have s0: "size_r r \<noteq> 0" using wf by (simp add: ring_wf_def)
  have U: "uint (entries r) = (a - c) mod S"
    using uint_entries [OF wf q] by (simp add: S_def a_def c_def)
  have F: "uint (free_entries r) = S - 1 - uint (entries r)"
    using uint_free_entries [OF wf q] by (simp add: S_def)
  have "k \<le> free_entries r" unfolding k by (rule granted_le(2))
  then have kF: "uint k \<le> uint (free_entries r)" by (simp add: word_le_def)
  have U0: "0 \<le> uint (entries r)" by simp
  from kF F U0 have kS: "uint k < S" by linarith
  then have ks: "k < size_r r" by (simp add: word_less_def S_def)
  have phs: "prod_head r < size_r r" using q by (simp add: quiescent_def)
  have nhs: "nh < size_r r"
    unfolding nh_def using s0 by (simp add: word_mod_less_divisor word_neq_0_conv)
  have unh: "uint nh = (a + uint k) mod S"
    unfolding nh_def a_def S_def using phs ks S(2) [unfolded S_def] by (rule uint_advance_expr)
  have wf': "ring_wf r'" using wf len by (simp add: ring_wf_def r')
  have q': "quiescent r'" using q nhs by (simp add: quiescent_def r')
  have "uint (entries r') = (uint nh - c) mod S"
    using uint_entries [OF wf' q'] by (simp add: r' S_def c_def)
  also have "\<dots> = ((a + uint k) mod S - c) mod S" by (simp only: unh)
  also have "\<dots> = (a + uint k - c) mod S" by (rule mod_diff_left_eq)
  also have "\<dots> = ((a - c) + uint k) mod S" by (simp add: algebra_simps)
  also have "\<dots> = ((a - c) mod S + uint k) mod S" by (rule mod_add_left_eq [symmetric])
  also have "\<dots> = (uint (entries r) + uint k) mod S" by (simp only: U)
  also have "\<dots> = uint (entries r) + uint k"
    using kF F U0 by (intro mod_pos_pos_trivial) simp_all
  finally have "uint (entries r') = uint (entries r) + uint k" .
  with wf' q' show ?thesis by (simp add: r')
qed

lemma dequeue_step:
  assumes wf: "ring_wf r" and q: "quiescent r"
    and res: "rte_ring_do_dequeue r tbl n b = Some (Inr (r', t, k))"
  shows "ring_wf r' \<and> quiescent r' \<and> size_r r' = size_r r \<and> capacity r' = capacity r \<and>
         elemlen r' = elemlen r \<and> uint (entries r') = uint (entries r) - uint k"
proof (cases "k = 0")
  case True
  with do_dequeue_result [OF _ res] q wf show ?thesis by (simp add: quiescent_def)
next
  case False
  define S where "S = uint (size_r r)"
  define a where "a = uint (prod_head r)"
  define c where "c = uint (cons_head r)"
  define nh where "nh = (cons_head r + k) mod size_r r"
  have ct: "cons_tail r = cons_head r" using q by (simp add: quiescent_def)
  from do_dequeue_result [OF ct res] False have
    k: "k = granted n (entries r) b"
    and r': "r' = r\<lparr>cons_head := nh, cons_tail := nh\<rparr>"
    by (simp_all add: nh_def)
  have S: "0 < S" "S < 2147483648" using wf_uint_size [OF wf] by (simp_all add: S_def)
  have s0: "size_r r \<noteq> 0" using wf by (simp add: ring_wf_def)
  have U: "uint (entries r) = (a - c) mod S"
    using uint_entries [OF wf q] by (simp add: S_def a_def c_def)
  have "k \<le> entries r" unfolding k by (rule granted_le(2))
  then have kU: "uint k \<le> uint (entries r)" by (simp add: word_le_def)
  have "entries r < size_r r" using s0 by (rule entries_less)
  then have "uint (entries r) < S" by (simp add: word_less_def S_def)
  with kU have kS: "uint k < S" by linarith
  then have ks: "k < size_r r" by (simp add: word_less_def S_def)
  have chs: "cons_head r < size_r r" using q by (simp add: quiescent_def)
  have nhs: "nh < size_r r"
    unfolding nh_def using s0 by (simp add: word_mod_less_divisor word_neq_0_conv)
  have unh: "uint nh = (c + uint k) mod S"
    unfolding nh_def c_def S_def using chs ks S(2) [unfolded S_def] by (rule uint_advance_expr)
  have wf': "ring_wf r'" using wf by (simp add: ring_wf_def r')
  have q': "quiescent r'" using q nhs by (simp add: quiescent_def r')
  have "uint (entries r') = (a - uint nh) mod S"
    using uint_entries [OF wf' q'] by (simp add: r' S_def a_def)
  also have "\<dots> = (a - (c + uint k) mod S) mod S" by (simp only: unh)
  also have "\<dots> = (a - (c + uint k)) mod S" by (rule mod_diff_right_eq)
  also have "\<dots> = ((a - c) - uint k) mod S" by (simp add: algebra_simps)
  also have "\<dots> = ((a - c) mod S - uint k) mod S" by (rule mod_diff_left_eq [symmetric])
  also have "\<dots> = (uint (entries r) - uint k) mod S" by (simp only: U)
  also have "\<dots> = uint (entries r) - uint k"
  proof (rule mod_pos_pos_trivial)
    show "0 \<le> uint (entries r) - uint k" using kU by linarith
    show "uint (entries r) - uint k < S"
      using \<open>uint (entries r) < S\<close> uint_ge_0 [of k] by linarith
  qed
  finally have "uint (entries r') = uint (entries r) - uint k" .
  with wf' q' show ?thesis by (simp add: r')
qed


lemma apply_op_Enqueue_Inr:
  assumes "apply_op r (Enqueue tbl n b) = Some (Inr (r', d))"
  shows "\<exists>k. rte_ring_do_enqueue r tbl n b = Some (Inr (r', k)) \<and> d = uint k"
proof (cases "rte_ring_do_enqueue r tbl n b")
  case None
  with assms show ?thesis by simp
next
  case (Some v)
  show ?thesis
  proof (cases v)
    case (Inl e)
    with Some assms show ?thesis by simp
  next
    case (Inr p)
    obtain r1 k where p: "p = (r1, k)" by (cases p)
    from assms Some Inr p have "r1 = r'" "d = uint k" by simp_all
    with Some Inr p show ?thesis by simp
  qed
qed

lemma apply_op_Dequeue_Inr:
  assumes "apply_op r (Dequeue tbl n b) = Some (Inr (r', d))"
  shows "\<exists>t k. rte_ring_do_dequeue r tbl n b = Some (Inr (r', t, k)) \<and> d = - uint k"
proof (cases "rte_ring_do_dequeue r tbl n b")
  case None
  with assms show ?thesis by simp
next
  case (Some v)
  show ?thesis
  proof (cases v)
    case (Inl e)
    with Some assms show ?thesis by simp
  next
    case (Inr p)
    obtain r1 t k where p: "p = (r1, t, k)" by (cases p)
    from assms Some Inr p have "r1 = r'" "d = - uint k" by simp_all
    with Some Inr p show ?thesis by simp
  qed
qed

lemma apply_op_step:
  assumes wf: "ring_wf r" and q: "quiescent r" and res: "apply_op r x = Some (Inr (r', d))"
  shows "ring_wf r' \<and> quiescent r' \<and> size_r r' = size_r r \<and> capacity r' = capacity r \<and>
         elemlen r' = elemlen r \<and> uint (entries r') = uint (entries r) + d"
proof (cases x)
  case (Enqueue tbl n b)
  from apply_op_Enqueue_Inr [OF res [unfolded Enqueue]] obtain k where
    k: "rte_ring_do_enqueue r tbl n b = Some (Inr (r', k))" and d: "d = uint k" by blast
  from enqueue_step [OF wf q k] d show ?thesis by simp
next
  case (Dequeue tbl n b)
  from apply_op_Dequeue_Inr [OF res [unfolded Dequeue]] obtain t k where
    k: "rte_ring_do_dequeue r tbl n b = Some (Inr (r', t, k))" and d: "d = - uint k" by blast
  from dequeue_step [OF wf q k] d show ?thesis by simp
qed

lemma apply_op_returns:
  assumes "quiescent r"
  shows "apply_op r x \<noteq> None"
proof (cases x)
  case (Enqueue tbl n b)
  have "rte_ring_do_enqueue r tbl n b \<noteq> None"
    using assms by (intro do_enqueue_returns) (simp add: quiescent_def)
  then obtain v where v: "rte_ring_do_enqueue r tbl n b = Some v" by blast
  show ?thesis unfolding Enqueue by (cases v) (simp_all add: v split: prod.splits)
next
  case (Dequeue tbl n b)
  have "rte_ring_do_dequeue r tbl n b \<noteq> None"
    using assms by (intro do_dequeue_returns) (simp add: quiescent_def)
  then obtain v where v: "rte_ring_do_dequeue r tbl n b = Some v" by blast
  show ?thesis unfolding Dequeue by (cases v) (simp_all add: v split: prod.splits)
qed

lemma apply_op_ok:
  assumes wf: "ring_wf r" and q: "quiescent r" and fits: "table_fits r x"
  shows "\<exists>r' d. apply_op r x = Some (Inr (r', d))"
proof (cases x)
  case (Enqueue tbl n b)
  with fits have f: "unat n * unat (elemlen r) \<le> length tbl" by simp
  have pt: "prod_tail r = prod_head r" using q by (simp add: quiescent_def)
  from do_enqueue_ok [OF wf pt f, of b] obtain r' k where
    "rte_ring_do_enqueue r tbl n b = Some (Inr (r', k))" by blast
  then show ?thesis unfolding Enqueue by simp
next
  case (Dequeue tbl n b)
  with fits have f: "unat n * unat (elemlen r) \<le> length tbl" by simp
  have ct: "cons_tail r = cons_head r" using q by (simp add: quiescent_def)
  from do_dequeue_ok [OF wf ct f, of b] obtain r' t k where
    "rte_ring_do_dequeue r tbl n b = Some (Inr (r', t, k))" by blast
  then show ?thesis unfolding Dequeue by simp
qed

lemma table_fits_elemlen: "elemlen r' = elemlen r \<Longrightarrow> table_fits r' x = table_fits r x"
  by (cases x) simp_all

lemma run_ops_Cons_Inr:
  assumes "run_ops r h (x # xs) = Some (Inr (r', h'))"
  shows "\<exists>r1 d. apply_op r x = Some (Inr (r1, d)) \<and> run_ops r1 (h + d) xs = Some (Inr (r', h'))"
proof (cases "apply_op r x")
  case None
  with assms show ?thesis by simp
next
  case (Some v)
  show ?thesis
  proof (cases v)
    case (Inl e)
    with Some assms show ?thesis by simp
  next
    case (Inr p)
    obtain r1 d where p: "p = (r1, d)" by (cases p)
    from assms Some Inr p show ?thesis by simp
  qed
qed

lemma run_ops_inv:
  assumes "ring_wf r" "quiescent r" "run_ops r h xs = Some (Inr (r', h'))"
  shows "ring_wf r' \<and> quiescent r' \<and> size_r r' = size_r r \<and> capacity r' = capacity r \<and>
         elemlen r' = elemlen r \<and> h' - uint (entries r') = h - uint (entries r)"
  using assms
proof (induction xs arbitrary: r h)
  case Nil
  then show ?case by simp
next
  case (Cons x xs)
  from run_ops_Cons_Inr [OF Cons.prems(3)] obtain r1 d where
    a: "apply_op r x = Some (Inr (r1, d))" and rest: "run_ops r1 (h + d) xs = Some (Inr (r', h'))"
    by blast
  note st = apply_op_step [OF Cons.prems(1,2) a]
  from st have wf1: "ring_wf r1" and q1: "quiescent r1" by simp_all
  from Cons.IH [OF wf1 q1 rest] st show ?case by simp
qed

lemma run_ops_returns:
  assumes "ring_wf r" "quiescent r"
  shows "run_ops r h xs \<noteq> None"
  using assms
proof (induction xs arbitrary: r h)
  case Nil
  then show ?case by simp
next
  case (Cons x xs)
  show ?case
  proof (cases "apply_op r x")
    case None
    with apply_op_returns [OF Cons.prems(2), of x] show ?thesis by simp
  next
    case (Some v)
    show ?thesis
    proof (cases v)
      case (Inl e)
      with Some show ?thesis by simp
    next
      case (Inr p)
      obtain r1 d where p: "p = (r1, d)" by (cases p)
      note st = apply_op_step [OF Cons.prems(1,2) Some [unfolded Inr p]]
      from st have wf1: "ring_wf r1" and q1: "quiescent r1" by simp_all
      from Cons.IH [OF wf1 q1, of "h + d"] Some Inr p show ?thesis by simp
    qed
  qed
qed

lemma run_ops_ok:
  assumes "ring_wf r" "quiescent r" "\<forall>x\<in>set xs. table_fits r x"
  shows "\<exists>r' h'. run_ops r h xs = Some (Inr (r', h'))"
  using assms
proof (induction xs arbitrary: r h)
  case Nil
  then show ?case by simp
next
  case (Cons x xs)
  have "table_fits r x" using Cons.prems(3) by simp
  from apply_op_ok [OF Cons.prems(1,2) this] obtain r1 d where
    a: "apply_op r x = Some (Inr (r1, d))" by blast
  note st = apply_op_step [OF Cons.prems(1,2) a]
  from st have wf1: "ring_wf r1" and q1: "quiescent r1" and el: "elemlen r1 = elemlen r"
    by simp_all
  have fits: "\<forall>y\<in>set xs. table_fits r1 y"
    using Cons.prems(3) by (simp add: table_fits_elemlen [OF el])
  from Cons.IH [OF wf1 q1 fits, of "h + d"] a show ?case by simp
qed

lemma mod_le_capacity:
  fixes x :: uint32_t
  assumes "capacity r = size_r r - 1" and "size_r r \<noteq> 0"
  shows "x mod size_r r \<le> capacity r"
proof -
  have "x mod size_r r < size_r r" using assms(2) by (simp add: word_mod_less_divisor word_neq_0_conv)
  then have "unat (x mod size_r r) < unat (size_r r)" by (simp only: word_less_nat_alt)
  then have "unat (x mod size_r r) \<le> unat (size_r r - 1)"
    using assms(2) by (simp add: unat_minus_one)
  then show ?thesis using assms(1) by (simp add: word_le_nat_alt)
qed

lemma entries_fresh: "size_r r \<noteq> 0 \<Longrightarrow> prod_tail r = cons_head r \<Longrightarrow> entries r = 0"
  by (simp add: entries_def)

lemma uint_capacity: "ring_wf r \<Longrightarrow> uint (capacity r) = uint (size_r r) - 1"
proof -
  assume wf: "ring_wf r"
  then have "unat (capacity r) = unat (size_r r) - 1"
    by (simp add: ring_wf_def unat_minus_one)
  moreover have "0 < unat (size_r r)" using wf by (simp add: ring_wf_def unat_gt_0)
  ultimately have "int (unat (capacity r)) = int (unat (size_r r)) - 1" by linarith
  then show ?thesis by (simp only: uint_nat)
qed

section \<open>The claims\<close>

lemmas run_simps = rte_ring_do_enqueue_def rte_ring_do_dequeue_def move_prod_head_unfold move_cons_head_unfold
  update_tail_same granted_def free_entries_def entries_def memcpy_def slot_offset_def table_offset_def
  INT_MAX_def ints_bytes_def int_bytes_def ring_usage_def ring8_def rte_ring_enqueue_bulk_def rte_ring_dequeue_bulk_def
  enqueue_copy.simps dequeue_copy.simps

lemma create_ring8: "rte_ring_create 544 4 = Inr (ring8 0 0 0 0 [0, 0, 0, 0, 0, 0, 0, 0])"
  by (simp add: rte_ring_create_def ring8_def ints_bytes_def int_bytes_def eval_nat_numeral)

lemma run_scenario_a:
  "run_ops (ring8 0 0 0 0 [0, 0, 0, 0, 0, 0, 0, 0]) 0
     [Enqueue (ints_bytes [1, 2, 3, 4, 5, 6, 7]) 7 RTE_RING_QUEUE_FIXED,
      Dequeue (ints_bytes [0, 0, 0]) 3 RTE_RING_QUEUE_FIXED,
      Enqueue (ints_bytes [8, 9, 10]) 3 RTE_RING_QUEUE_FIXED]
   = Some (Inr (ring8 2 2 3 3 [9, 10, 3, 4, 5, 6, 7, 8], 7))"
  by (simp add: run_simps)

lemma run_scenario_b:
  "run_ops (ring8 0 0 0 0 [0, 0, 0, 0, 0, 0, 0, 0]) 0
     [Enqueue (ints_bytes [1, 2, 3, 4, 5, 6, 7]) 7 RTE_RING_QUEUE_FIXED,
      Dequeue (ints_bytes [0, 0, 0, 0, 0, 0, 0]) 7 RTE_RING_QUEUE_FIXED,
      Enqueue (ints_bytes [8, 9, 10]) 3 RTE_RING_QUEUE_FIXED]
   = Some (Inr (ring8 2 2 7 7 [9, 10, 3, 4, 5, 6, 7, 8], 3))"
  by (simp add: run_simps)

text \<open>
  Claim C1. On a fresh ring of 8 slots (capacity 7) of 4-byte elements: enqueueing
  1, ..., 7 returns 7; enqueueing 8 under FIXED then returns 0 and the usage stays 7;
  dequeuing 3 elements gives 1, 2, 3 and leaves usage 4 and 3 free slots; enqueueing
  8, 9, 10 under FIXED returns 3; dequeuing 7 elements gives 4, ..., 10 in that order.
\<close>

theorem concrete_scenario:
  "rte_ring_create 544 4 = Inr (ring8 0 0 0 0 [0, 0, 0, 0, 0, 0, 0, 0]) \<and>
   rte_ring_do_enqueue (ring8 0 0 0 0 [0, 0, 0, 0, 0, 0, 0, 0])
       (ints_bytes [1, 2, 3, 4, 5, 6, 7]) 7 RTE_RING_QUEUE_FIXED
     = Some (Inr (ring8 7 7 0 0 [1, 2, 3, 4, 5, 6, 7, 0], 7)) \<and>
   rte_ring_enqueue_bulk (ring8 0 0 0 0 [0, 0, 0, 0, 0, 0, 0, 0])
       (ints_bytes [1, 2, 3, 4, 5, 6, 7]) 7
     = Some (Inr (ring8 7 7 0 0 [1, 2, 3, 4, 5, 6, 7, 0], 7)) \<and>
   ring_usage (ring8 7 7 0 0 [1, 2, 3, 4, 5, 6, 7, 0]) = Inr 7 \<and>
   rte_ring_do_enqueue (ring8 7 7 0 0 [1, 2, 3, 4, 5, 6, 7, 0])
       (ints_bytes [8]) 1 RTE_RING_QUEUE_FIXED
     = Some (Inr (ring8 7 7 0 0 [1, 2, 3, 4, 5, 6, 7, 0], 0)) \<and>
   rte_ring_dequeue_bulk (ring8 7 7 0 0 [1, 2, 3, 4, 5, 6, 7, 0]) (ints_bytes [0, 0, 0]) 3
     = Some (Inr (ring8 7 7 3 3 [1, 2, 3, 4, 5, 6, 7, 0], ints_bytes [1, 2, 3], 3)) \<and>
   ring_usage (ring8 7 7 3 3 [1, 2, 3, 4, 5, 6, 7, 0]) = Inr 4 \<and>
   free_entries (ring8 7 7 3 3 [1, 2, 3, 4, 5, 6, 7, 0]) = 3 \<and>
   rte_ring_do_enqueue (ring8 7 7 3 3 [1, 2, 3, 4, 5, 6, 7, 0])
       (ints_bytes [8, 9, 10]) 3 RTE_RING_QUEUE_FIXED
     = Some (Inr (ring8 2 2 3 3 [9, 10, 3, 4, 5, 6, 7, 8], 3)) \<and>
   rte_ring_dequeue_bulk (ring8 2 2 3 3 [9, 10, 3, 4, 5, 6, 7, 8])
       (ints_bytes [0, 0, 0, 0, 0, 0, 0]) 7
     = Some (Inr (ring8 2 2 2 2 [9, 10, 3, 4, 5, 6, 7, 8],
                  ints_bytes [4, 5, 6, 7, 8, 9, 10], 7))"
proof (intro conjI)
  show "rte_ring_create 544 4 = Inr (ring8 0 0 0 0 [0, 0, 0, 0, 0, 0, 0, 0])"
    by (simp add: rte_ring_create_def ring8_def ints_bytes_def int_bytes_def eval_nat_numeral)
qed (simp_all add: run_simps)

text \<open>
  Claim C9, as the code has it. On a ring with at least one slot, whatever its counters
  and contents, an enqueue or a dequeue of 0 elements returns 0 and changes neither the
  ring nor the caller's table; the head move returns before it computes a new head, so
  before the compare-and-swap.
\<close>

theorem zero_request_no_effect:
  assumes "size_r r \<noteq> 0"
  shows "rte_ring_move_prod_head r 0 b = Some (Inr (r, 0, prod_head r, None)) \<and>
         rte_ring_do_enqueue r obj_table 0 b = Some (Inr (r, 0)) \<and>
         rte_ring_move_cons_head r 0 b = Some (Inr (r, 0, cons_head r, None, entries r)) \<and>
         rte_ring_do_dequeue r obj_table 0 b = Some (Inr (r, obj_table, 0))"
  using assms
  by (simp add: rte_ring_do_enqueue_def rte_ring_do_dequeue_def move_prod_head_unfold
      move_cons_head_unfold granted_def)

theorem zero_request_no_effect_witness:
  "rte_ring_do_enqueue (ring8 7 7 3 3 [1, 2, 3, 4, 5, 6, 7, 0]) (ints_bytes [8]) 0 RTE_RING_QUEUE_VARIABLE
     = Some (Inr (ring8 7 7 3 3 [1, 2, 3, 4, 5, 6, 7, 0], 0)) \<and>
   rte_ring_do_dequeue (ring8 7 7 3 3 [1, 2, 3, 4, 5, 6, 7, 0]) (ints_bytes [8]) 0 RTE_RING_QUEUE_FIXED
     = Some (Inr (ring8 7 7 3 3 [1, 2, 3, 4, 5, 6, 7, 0], ints_bytes [8], 0))"
proof -
  have s: "size_r (ring8 7 7 3 3 [1, 2, 3, 4, 5, 6, 7, 0]) \<noteq> 0" by (simp add: ring8_def)
  show ?thesis
    using zero_request_no_effect [OF s, of RTE_RING_QUEUE_VARIABLE "ints_bytes [8]"]
      zero_request_no_effect [OF s, of RTE_RING_QUEUE_FIXED "ints_bytes [8]"]
    by simp
qed

text \<open>
  On the ring without a slot that \<^verbatim>\<open>rte_ring_create(p, 512, 4)\<close> returns, an enqueue
  or a dequeue of 0 elements does not return 0: \<^verbatim>\<open>% size\<close> divides by zero.
\<close>

theorem zero_request_counterexample:
  "rte_ring_create 512 4
     = Inr \<lparr>size_r = 0, mask_r = 4294967295, capacity = 4294967295, elemlen = 4,
            prod_head = 0, prod_tail = 0, cons_head = 0, cons_tail = 0, data = []\<rparr> \<and>
   rte_ring_do_enqueue
       \<lparr>size_r = 0, mask_r = 4294967295, capacity = 4294967295, elemlen = 4,
        prod_head = 0, prod_tail = 0, cons_head = 0, cons_tail = 0, data = []\<rparr>
       [] 0 RTE_RING_QUEUE_FIXED
     = Some (Inl DivByZero) \<and>
   rte_ring_do_dequeue
       \<lparr>size_r = 0, mask_r = 4294967295, capacity = 4294967295, elemlen = 4,
        prod_head = 0, prod_tail = 0, cons_head = 0, cons_tail = 0, data = []\<rparr>
       [] 0 RTE_RING_QUEUE_FIXED
     = Some (Inl DivByZero)"
  by (intro conjI)
     (simp_all add: rte_ring_create_def rte_ring_do_enqueue_def rte_ring_do_dequeue_def
       move_prod_head_unfold move_cons_head_unfold)

text \<open>
  Claim C5. On every ring (its capacity being one less than its slot count, as creation
  sets it), whatever its occupancy, a FIXED enqueue or dequeue of more than \<open>capacity\<close>
  elements returns 0 and leaves the four counters, the storage and the caller's table
  as they were.
\<close>

theorem oversized_fixed_request_fails:
  assumes cap: "capacity r = size_r r - 1" and n: "capacity r < n"
  shows "rte_ring_do_enqueue r obj_table n RTE_RING_QUEUE_FIXED = Some (Inr (r, 0)) \<and>
         rte_ring_do_dequeue r obj_table n RTE_RING_QUEUE_FIXED = Some (Inr (r, obj_table, 0))"
proof -
  have s0: "size_r r \<noteq> 0"
  proof
    assume "size_r r = 0"
    with cap have "capacity r = - 1" by simp
    with n show False by (simp add: word_order.extremum_strict) 
  qed
  have "free_entries r \<le> capacity r" "entries r \<le> capacity r"
    unfolding free_entries_def entries_def using cap s0 by (rule mod_le_capacity)+
  with n have "free_entries r < n" "entries r < n" by simp_all
  then have "granted n (free_entries r) RTE_RING_QUEUE_FIXED = 0"
    "granted n (entries r) RTE_RING_QUEUE_FIXED = 0" by (simp_all add: granted_def)
  with s0 show ?thesis
    by (simp add: rte_ring_do_enqueue_def rte_ring_do_dequeue_def move_prod_head_unfold
        move_cons_head_unfold)
qed

theorem oversized_fixed_request_fails_witness:
  "rte_ring_do_enqueue (ring8 0 0 0 0 [0, 0, 0, 0, 0, 0, 0, 0]) (ints_bytes [1, 2, 3, 4, 5, 6, 7, 8]) 8
       RTE_RING_QUEUE_FIXED
     = Some (Inr (ring8 0 0 0 0 [0, 0, 0, 0, 0, 0, 0, 0], 0)) \<and>
   rte_ring_do_dequeue (ring8 7 7 0 0 [1, 2, 3, 4, 5, 6, 7, 0]) (ints_bytes [0, 0, 0, 0, 0, 0, 0, 0]) 8
       RTE_RING_QUEUE_FIXED
     = Some (Inr (ring8 7 7 0 0 [1, 2, 3, 4, 5, 6, 7, 0], ints_bytes [0, 0, 0, 0, 0, 0, 0, 0], 0))"
proof -
  have a: "capacity (ring8 0 0 0 0 [0, 0, 0, 0, 0, 0, 0, 0])
             = size_r (ring8 0 0 0 0 [0, 0, 0, 0, 0, 0, 0, 0]) - 1"
    "capacity (ring8 0 0 0 0 [0, 0, 0, 0, 0, 0, 0, 0]) < 8" by (simp_all add: ring8_def)
  have b: "capacity (ring8 7 7 0 0 [1, 2, 3, 4, 5, 6, 7, 0])
             = size_r (ring8 7 7 0 0 [1, 2, 3, 4, 5, 6, 7, 0]) - 1"
    "capacity (ring8 7 7 0 0 [1, 2, 3, 4, 5, 6, 7, 0]) < 8" by (simp_all add: ring8_def)
  show ?thesis
    using oversized_fixed_request_fails [OF a, of "ints_bytes [1, 2, 3, 4, 5, 6, 7, 8]"]
      oversized_fixed_request_fails [OF b, of "ints_bytes [0, 0, 0, 0, 0, 0, 0, 0]"]
    by simp
qed

text \<open>
  Claim C10. When the ring was created with an element size of at least 1 and a block of
  at least 512 bytes plus one element, then in every later state of that ring every copy
  of an enqueue or a dequeue stays inside the data region: each slot offset
  \<open>((head + i) mod size) * elem_size\<close> plus \<open>elem_size\<close> is at most
  \<open>size * elem_size\<close>, which is at most \<open>storage_len - 512\<close>, the length of the
  region; so no enqueue writes and no dequeue reads past its end.
\<close>

theorem copies_within_data_region:
  assumes e: "0 < sint elem_size" and t: "512 + sint elem_size \<le> sint storage_len"
    and c: "rte_ring_create storage_len elem_size = Inr r0"
    and later: "size_r r = size_r r0" "capacity r = capacity r0" "elemlen r = elemlen r0"
      "length (data r) = length (data r0)"
  shows "slot_offset r head i + unat (elemlen r) \<le> unat (size_r r) * unat (elemlen r) \<and>
         unat (size_r r) * unat (elemlen r) \<le> nat (sint storage_len - 512) \<and>
         length (data r) = nat (sint storage_len - 512) \<and>
         rte_ring_do_enqueue r obj_table n b \<noteq> Some (Inl DstOverrun) \<and>
         rte_ring_do_dequeue r obj_table n b \<noteq> Some (Inl SrcOverrun)"
proof -
  have wf0: "ring_wf r0" and len0: "length (data r0) = nat (sint storage_len - 512)"
    and fit0: "unat (size_r r0) * unat (elemlen r0) \<le> nat (sint storage_len - 512)"
    using create_valid_wf [OF e t c] by simp_all
  have wf: "ring_wf r" using wf0 later by (simp add: ring_wf_def)
  show ?thesis
    using slot_offset_bound [OF wf, of head i] fit0 len0 later
      do_enqueue_no_overrun [OF wf, of obj_table n b]
      do_dequeue_no_overrun [OF wf, of obj_table n b]
    by simp
qed

theorem copies_within_data_region_witness:
  "slot_offset (ring8 7 7 3 3 [1, 2, 3, 4, 5, 6, 7, 0]) 7 2 + 4 \<le> 32 \<and>
   rte_ring_do_enqueue (ring8 7 7 3 3 [1, 2, 3, 4, 5, 6, 7, 0]) (ints_bytes [8, 9, 10]) 3
     RTE_RING_QUEUE_FIXED \<noteq> Some (Inl DstOverrun) \<and>
   rte_ring_do_dequeue (ring8 7 7 3 3 [1, 2, 3, 4, 5, 6, 7, 0]) (ints_bytes [8, 9, 10]) 3
     RTE_RING_QUEUE_FIXED \<noteq> Some (Inl SrcOverrun)"
proof -
  have e: "0 < sint (4 :: 32 word)" and t: "512 + sint (4 :: 32 word) \<le> sint (544 :: 32 word)"
    by simp_all
  have c: "rte_ring_create 544 4 = Inr (ring8 0 0 0 0 [0, 0, 0, 0, 0, 0, 0, 0])"
    by (simp add: rte_ring_create_def ring8_def ints_bytes_def int_bytes_def eval_nat_numeral)
  have later:
    "size_r (ring8 7 7 3 3 [1, 2, 3, 4, 5, 6, 7, 0]) = size_r (ring8 0 0 0 0 [0, 0, 0, 0, 0, 0, 0, 0])"
    "capacity (ring8 7 7 3 3 [1, 2, 3, 4, 5, 6, 7, 0]) = capacity (ring8 0 0 0 0 [0, 0, 0, 0, 0, 0, 0, 0])"
    "elemlen (ring8 7 7 3 3 [1, 2, 3, 4, 5, 6, 7, 0]) = elemlen (ring8 0 0 0 0 [0, 0, 0, 0, 0, 0, 0, 0])"
    "length (data (ring8 7 7 3 3 [1, 2, 3, 4, 5, 6, 7, 0]))
       = length (data (ring8 0 0 0 0 [0, 0, 0, 0, 0, 0, 0, 0]))"
    by (simp_all add: ring8_def ints_bytes_def int_bytes_def)
  note w = copies_within_data_region [OF e t c later, of 7 2 "ints_bytes [8, 9, 10]" 3 RTE_RING_QUEUE_FIXED]
  have "slot_offset (ring8 7 7 3 3 [1, 2, 3, 4, 5, 6, 7, 0]) 7 2 + 4 \<le> 32"
    using w [THEN conjunct1] by (simp add: ring8_def)
  then show ?thesis
    using w by blast
qed

text \<open>
  What the head moves store. For every reservation that succeeds (a head move that
  returns \<open>k \<noteq> 0\<close>), the old head is the head counter as it was, and the new head,
  returned and stored in the counter, is \<open>(old_head + k) mod 2^32\<close> reduced again
  modulo the slot count, so it is less than the slot count. This holds for the producer
  and for the consumer head, and on a ring with at least one slot both head moves
  return.
\<close>

lemma head_move_modulo_size:
  "(rte_ring_move_prod_head r n b = Some (Inr (r', k, old_head, new_head)) \<and> k \<noteq> 0 \<longrightarrow>
      old_head = prod_head r \<and> new_head = Some ((old_head + k) mod size_r r) \<and>
      prod_head r' = (old_head + k) mod size_r r \<and> prod_head r' < size_r r) \<and>
   (rte_ring_move_cons_head r n b = Some (Inr (r'', k', old_head', new_head', e)) \<and> k' \<noteq> 0 \<longrightarrow>
      old_head' = cons_head r \<and> new_head' = Some ((old_head' + k') mod size_r r) \<and>
      cons_head r'' = (old_head' + k') mod size_r r \<and> cons_head r'' < size_r r) \<and>
   (size_r r \<noteq> 0 \<longrightarrow>
      (\<exists>res. rte_ring_move_prod_head r n b = Some (Inr res)) \<and>
      (\<exists>res. rte_ring_move_cons_head r n b = Some (Inr res)))"
proof -
  have less: "x mod size_r r < size_r r" if "size_r r \<noteq> 0" for x
    using that by (simp add: word_mod_less_divisor word_neq_0_conv)
  have p: "rte_ring_move_prod_head r n b = Some (Inr (r', k, old_head, new_head)) \<and> k \<noteq> 0 \<longrightarrow>
      old_head = prod_head r \<and> new_head = Some ((old_head + k) mod size_r r) \<and>
      prod_head r' = (old_head + k) mod size_r r \<and> prod_head r' < size_r r"
    using less by (auto simp: move_prod_head_unfold split: if_splits)
  have c: "rte_ring_move_cons_head r n b = Some (Inr (r'', k', old_head', new_head', e)) \<and> k' \<noteq> 0 \<longrightarrow>
      old_head' = cons_head r \<and> new_head' = Some ((old_head' + k') mod size_r r) \<and>
      cons_head r'' = (old_head' + k') mod size_r r \<and> cons_head r'' < size_r r"
    using less by (auto simp: move_cons_head_unfold split: if_splits)
  have t: "size_r r \<noteq> 0 \<longrightarrow>
      (\<exists>res. rte_ring_move_prod_head r n b = Some (Inr res)) \<and>
      (\<exists>res. rte_ring_move_cons_head r n b = Some (Inr res))"
    by (simp add: move_prod_head_unfold move_cons_head_unfold)
  from p c t show ?thesis by (intro conjI)
qed

lemma head_move_modulo_size_example:
  "rte_ring_move_prod_head (ring8 7 7 3 3 [1, 2, 3, 4, 5, 6, 7, 0]) 3 RTE_RING_QUEUE_FIXED
     = Some (Inr (ring8 2 7 3 3 [1, 2, 3, 4, 5, 6, 7, 0], 3, 7, Some 2)) \<and>
   (3 :: uint32_t) \<noteq> 0 \<and> Some (2 :: uint32_t) = Some ((7 + 3) mod 8) \<and>
   rte_ring_move_cons_head (ring8 7 7 3 3 [1, 2, 3, 4, 5, 6, 7, 0]) 6 RTE_RING_QUEUE_VARIABLE
     = Some (Inr (ring8 7 7 7 3 [1, 2, 3, 4, 5, 6, 7, 0], 4, 3, Some 7, 4)) \<and>
   (4 :: uint32_t) \<noteq> 0 \<and> Some (7 :: uint32_t) = Some ((3 + 4) mod 8)"
proof -
  have p: "rte_ring_move_prod_head (ring8 7 7 3 3 [1, 2, 3, 4, 5, 6, 7, 0]) 3 RTE_RING_QUEUE_FIXED
     = Some (Inr (ring8 2 7 3 3 [1, 2, 3, 4, 5, 6, 7, 0], 3, 7, Some 2))"
    by (simp add: move_prod_head_unfold granted_def free_entries_def ring8_def)
  have c: "rte_ring_move_cons_head (ring8 7 7 3 3 [1, 2, 3, 4, 5, 6, 7, 0]) 6 RTE_RING_QUEUE_VARIABLE
     = Some (Inr (ring8 7 7 7 3 [1, 2, 3, 4, 5, 6, 7, 0], 4, 3, Some 7, 4))"
    by (simp add: move_cons_head_unfold granted_def entries_def ring8_def)
  have s: "size_r (ring8 7 7 3 3 [1, 2, 3, 4, 5, 6, 7, 0]) = 8" by (simp add: ring8_def)
  have "Some (2 :: uint32_t) = Some ((7 + 3) mod 8)"
    using head_move_modulo_size [where r = "ring8 7 7 3 3 [1, 2, 3, 4, 5, 6, 7, 0]" and n = 3
        and b = RTE_RING_QUEUE_FIXED and r' = "ring8 2 7 3 3 [1, 2, 3, 4, 5, 6, 7, 0]" and k = 3
        and old_head = 7 and new_head = "Some 2", THEN conjunct1] p s
    by simp
  moreover have "Some (7 :: uint32_t) = Some ((3 + 4) mod 8)"
    using head_move_modulo_size [where r = "ring8 7 7 3 3 [1, 2, 3, 4, 5, 6, 7, 0]" and n = 6
        and b = RTE_RING_QUEUE_VARIABLE and r'' = "ring8 7 7 7 3 [1, 2, 3, 4, 5, 6, 7, 0]"
        and k' = 4 and old_head' = 3 and new_head' = "Some 7" and e = 4,
        THEN conjunct2, THEN conjunct1] c s
    by simp
  ultimately show ?thesis using p c by simp
qed

text \<open>
  A producer that loaded the head, was held up before its compare-and-swap, and finds the
  head at the same reduced value after it has gone once round the ring. It loaded head 0
  on the fresh ring of 8 slots and was granted 7 slots, new head 7. Meanwhile 7 elements
  went in, 7 out and 1 in: the head is 0 again, one element is in the ring and 6 slots are
  free. Its compare-and-swap of 0 for 7 succeeds all the same.
\<close>

lemma stale_head_cas_succeeds:
  "granted 7 (free_entries (ring8 0 0 0 0 [0, 0, 0, 0, 0, 0, 0, 0])) RTE_RING_QUEUE_FIXED = 7 \<and>
   run_ops (ring8 0 0 0 0 [0, 0, 0, 0, 0, 0, 0, 0]) 0
     [Enqueue (ints_bytes [1, 2, 3, 4, 5, 6, 7]) 7 RTE_RING_QUEUE_FIXED,
      Dequeue (ints_bytes [0, 0, 0, 0, 0, 0, 0]) 7 RTE_RING_QUEUE_FIXED,
      Enqueue (ints_bytes [8]) 1 RTE_RING_QUEUE_FIXED]
   = Some (Inr (ring8 0 0 7 7 [1, 2, 3, 4, 5, 6, 7, 8], 1)) \<and>
   free_entries (ring8 0 0 7 7 [1, 2, 3, 4, 5, 6, 7, 8]) = 6 \<and>
   atomic_compare_exchange_n (prod_head (ring8 0 0 7 7 [1, 2, 3, 4, 5, 6, 7, 8])) 0 ((0 + 7) mod 8)
   = (True, 7, 0)"
proof (intro conjI)
  show "run_ops (ring8 0 0 0 0 [0, 0, 0, 0, 0, 0, 0, 0]) 0
     [Enqueue (ints_bytes [1, 2, 3, 4, 5, 6, 7]) 7 RTE_RING_QUEUE_FIXED,
      Dequeue (ints_bytes [0, 0, 0, 0, 0, 0, 0]) 7 RTE_RING_QUEUE_FIXED,
      Enqueue (ints_bytes [8]) 1 RTE_RING_QUEUE_FIXED]
   = Some (Inr (ring8 0 0 7 7 [1, 2, 3, 4, 5, 6, 7, 8], 1))"
    by (simp add: run_simps)
qed (simp_all add: granted_def free_entries_def ring8_def atomic_compare_exchange_n_def)

text \<open>
  That producer then copies its 7 elements over slots 0 to 6, finds the tail at the old
  head 0 and publishes: the element 8 in slot 7 is all that is left of what was in the
  ring, the four counters are equal and the usage is 0, after 15 elements were taken in
  and 7 given out.
\<close>

lemma stale_reservation_overwrites:
  "enqueue_copy (ring8 7 0 7 7 [1, 2, 3, 4, 5, 6, 7, 8])
       (ints_bytes [11, 12, 13, 14, 15, 16, 17]) 0 7 0
     = Inr (ring8 7 0 7 7 [11, 12, 13, 14, 15, 16, 17, 8]) \<and>
   update_tail (prod_head (ring8 7 0 7 7 [11, 12, 13, 14, 15, 16, 17, 8]))
       (prod_tail (ring8 7 0 7 7 [11, 12, 13, 14, 15, 16, 17, 8])) 0 7
     = Some 7 \<and>
   ring_usage (ring8 7 7 7 7 [11, 12, 13, 14, 15, 16, 17, 8]) = Inr 0"
  by (intro conjI) (simp_all add: run_simps)

text \<open>
  Claim C2. The claim: the head counters run modulo \<open>2^32\<close> and are never reduced into
  \<open>[0, size)\<close>, so a reservation of \<open>n\<close> slots gives the new head
  \<open>(old_head + n) mod 2^32\<close>; the comment of \<^verbatim>\<open>struct rte_ring\<close> says the same. The
  code: in the ring of 8 slots with producer head 7 and consumer tail 3 (reached by
  enqueueing 7 elements and dequeuing 3), reserving 3 slots returns and stores the new
  head 2, not 10.
\<close>

theorem head_not_premasked_counterexample:
  "rte_ring_move_prod_head (ring8 7 7 3 3 [1, 2, 3, 4, 5, 6, 7, 0]) 3 RTE_RING_QUEUE_FIXED
     = Some (Inr (ring8 2 7 3 3 [1, 2, 3, 4, 5, 6, 7, 0], 3, 7, Some 2)) \<and>
   (2 :: uint32_t) \<noteq> 7 + 3"
  by (simp add: move_prod_head_unfold granted_def free_entries_def ring8_def)

text \<open>
  Claim C7, as the code has it. The behavior is a parameter of the internal operations
  \<^verbatim>\<open>__rte_ring_do_enqueue\<close> and \<^verbatim>\<open>__rte_ring_do_dequeue\<close>, and there the caller
  has both: on a well-formed ring with no reservation in flight and a table of \<open>n\<close>
  elements, FIXED moves \<open>n\<close> elements when that many are available and none
  otherwise, VARIABLE moves \<open>n\<close> or what is available, whichever is less. The public
  \<^verbatim>\<open>rte_ring_dequeue_bulk\<close> takes no behavior and is that dequeue with FIXED.
\<close>

theorem bulk_behaviors_hard_wired:
  assumes wf: "ring_wf r" and q: "quiescent r"
    and tbl: "unat n * unat (elemlen r) \<le> length obj_table"
  shows "(\<exists>r'. rte_ring_do_enqueue r obj_table n RTE_RING_QUEUE_FIXED
                  = Some (Inr (r', if n \<le> free_entries r then n else 0))) \<and>
         (\<exists>r'. rte_ring_do_enqueue r obj_table n RTE_RING_QUEUE_VARIABLE
                  = Some (Inr (r', min n (free_entries r)))) \<and>
         (\<exists>r' t. rte_ring_do_dequeue r obj_table n RTE_RING_QUEUE_FIXED
                  = Some (Inr (r', t, if n \<le> entries r then n else 0))) \<and>
         (\<exists>r' t. rte_ring_do_dequeue r obj_table n RTE_RING_QUEUE_VARIABLE
                  = Some (Inr (r', t, min n (entries r)))) \<and>
         rte_ring_dequeue_bulk r obj_table n
           = rte_ring_do_dequeue r obj_table n RTE_RING_QUEUE_FIXED"
proof -
  have pt: "prod_tail r = prod_head r" and ct: "cons_tail r = cons_head r"
    using q by (simp_all add: quiescent_def)
  from do_enqueue_ok [OF wf pt tbl, of RTE_RING_QUEUE_FIXED]
  have ef: "\<exists>r'. rte_ring_do_enqueue r obj_table n RTE_RING_QUEUE_FIXED
                  = Some (Inr (r', if n \<le> free_entries r then n else 0))"
    unfolding granted_fixed by blast
  from do_enqueue_ok [OF wf pt tbl, of RTE_RING_QUEUE_VARIABLE]
  have ev: "\<exists>r'. rte_ring_do_enqueue r obj_table n RTE_RING_QUEUE_VARIABLE
                  = Some (Inr (r', min n (free_entries r)))"
    unfolding granted_variable by blast
  from do_dequeue_ok [OF wf ct tbl, of RTE_RING_QUEUE_FIXED]
  have df: "\<exists>r' t. rte_ring_do_dequeue r obj_table n RTE_RING_QUEUE_FIXED
                  = Some (Inr (r', t, if n \<le> entries r then n else 0))"
    unfolding granted_fixed by blast
  from do_dequeue_ok [OF wf ct tbl, of RTE_RING_QUEUE_VARIABLE]
  have dv: "\<exists>r' t. rte_ring_do_dequeue r obj_table n RTE_RING_QUEUE_VARIABLE
                  = Some (Inr (r', t, min n (entries r)))"
    unfolding granted_variable by blast
  have pub: "rte_ring_dequeue_bulk r obj_table n
           = rte_ring_do_dequeue r obj_table n RTE_RING_QUEUE_FIXED"
    by (simp add: rte_ring_dequeue_bulk_def)
  from ef ev df dv pub show ?thesis by (intro conjI)
qed

theorem bulk_behaviors_hard_wired_witness:
  "(\<exists>r'. rte_ring_do_enqueue (ring8 5 5 0 0 [1, 2, 3, 4, 5, 0, 0, 0]) (ints_bytes [6, 7, 8]) 3
            RTE_RING_QUEUE_FIXED = Some (Inr (r', 0))) \<and>
   (\<exists>r'. rte_ring_do_enqueue (ring8 5 5 0 0 [1, 2, 3, 4, 5, 0, 0, 0]) (ints_bytes [6, 7, 8]) 3
            RTE_RING_QUEUE_VARIABLE = Some (Inr (r', 2))) \<and>
   (\<exists>r' t. rte_ring_do_dequeue (ring8 5 5 0 0 [1, 2, 3, 4, 5, 0, 0, 0]) (ints_bytes [6, 7, 8]) 3
            RTE_RING_QUEUE_FIXED = Some (Inr (r', t, 3))) \<and>
   (\<exists>r' t. rte_ring_do_dequeue (ring8 5 5 0 0 [1, 2, 3, 4, 5, 0, 0, 0]) (ints_bytes [6, 7, 8]) 3
            RTE_RING_QUEUE_VARIABLE = Some (Inr (r', t, 3))) \<and>
   rte_ring_dequeue_bulk (ring8 5 5 0 0 [1, 2, 3, 4, 5, 0, 0, 0]) (ints_bytes [6, 7, 8]) 3
     = rte_ring_do_dequeue (ring8 5 5 0 0 [1, 2, 3, 4, 5, 0, 0, 0]) (ints_bytes [6, 7, 8]) 3
         RTE_RING_QUEUE_FIXED"
proof -
  have wf: "ring_wf (ring8 5 5 0 0 [1, 2, 3, 4, 5, 0, 0, 0])" by (rule ring8_wf)
  have q: "quiescent (ring8 5 5 0 0 [1, 2, 3, 4, 5, 0, 0, 0])"
    by (simp add: quiescent_def ring8_def)
  have tbl: "unat (3 :: uint32_t) * unat (elemlen (ring8 5 5 0 0 [1, 2, 3, 4, 5, 0, 0, 0]))
               \<le> length (ints_bytes [6, 7, 8])"
    by (simp add: ring8_def ints_bytes_def int_bytes_def)
  have f: "free_entries (ring8 5 5 0 0 [1, 2, 3, 4, 5, 0, 0, 0]) = 2"
    by (simp add: free_entries_def ring8_def)
  have e: "entries (ring8 5 5 0 0 [1, 2, 3, 4, 5, 0, 0, 0]) = 5"
    by (simp add: entries_def ring8_def)
  have v: "(if (3 :: uint32_t) \<le> 2 then 3 else 0) = (0 :: uint32_t)" "min (3 :: uint32_t) 2 = 2"
    "(if (3 :: uint32_t) \<le> 5 then 3 else 0) = (3 :: uint32_t)" "min (3 :: uint32_t) 5 = 3"
    by simp_all
  show ?thesis
    using bulk_behaviors_hard_wired [OF wf q tbl] unfolding f e v .
qed

text \<open>
  The public dequeue does not let the caller choose: with 2 elements in the ring,
  \<^verbatim>\<open>rte_ring_dequeue_bulk\<close> of 3 gives 0 where VARIABLE would give 2.
\<close>

theorem bulk_behaviors_counterexample:
  "rte_ring_dequeue_bulk (ring8 2 2 0 0 [1, 2, 0, 0, 0, 0, 0, 0]) (ints_bytes [0, 0, 0]) 3
     = Some (Inr (ring8 2 2 0 0 [1, 2, 0, 0, 0, 0, 0, 0], ints_bytes [0, 0, 0], 0)) \<and>
   rte_ring_do_dequeue (ring8 2 2 0 0 [1, 2, 0, 0, 0, 0, 0, 0]) (ints_bytes [0, 0, 0]) 3
       RTE_RING_QUEUE_VARIABLE
     = Some (Inr (ring8 2 2 2 2 [1, 2, 0, 0, 0, 0, 0, 0], ints_bytes [1, 2, 0], 2))"
  by (intro conjI) (simp_all add: run_simps)

text \<open>
  Claim C8, as the code has it. \<^verbatim>\<open>rte_ring_create\<close> checks nothing: for every element
  length other than 0 and every block that holds the four counters it returns a ring whose slot
  count is \<open>(totallen - 512) / elemlen\<close>, truncated and converted to \<^verbatim>\<open>uint32_t\<close>,
  with \<open>mask\<close> and \<open>capacity\<close> one less, all counters 0 and the data cleared, be the
  slot count a power of two or not, zero or not.
\<close>

theorem create_returns_unvalidated_ring:
  assumes "sint elem_size \<noteq> 0" and "196 \<le> sint storage_len"
  shows "rte_ring_create storage_len elem_size
           = Inr \<lparr>size_r = word_of_int ((sint storage_len - 512) sdiv sint elem_size),
                  mask_r = word_of_int ((sint storage_len - 512) sdiv sint elem_size) - 1,
                  capacity = word_of_int ((sint storage_len - 512) sdiv sint elem_size) - 1,
                  elemlen = elem_size,
                  prod_head = 0, prod_tail = 0, cons_head = 0, cons_tail = 0,
                  data = replicate (nat (sint storage_len - 512)) 0\<rparr>"
  using assms by (simp add: rte_ring_create_def)

theorem create_returns_unvalidated_ring_witness:
  "rte_ring_create 524 4
     = Inr \<lparr>size_r = 3, mask_r = 2, capacity = 2, elemlen = 4,
            prod_head = 0, prod_tail = 0, cons_head = 0, cons_tail = 0,
            data = replicate 12 0\<rparr>"
proof -
  have a: "sint (4 :: 32 word) \<noteq> 0" and b: "196 \<le> sint (524 :: 32 word)" by simp_all
  show ?thesis using create_returns_unvalidated_ring [OF a b] by simp
qed

text \<open>
  Creation returns a ring for a slot count of 3 (not a power of two), for a block with
  room for no element (0 slots, capacity \<open>2^32 - 1\<close>), and for a block of 200 bytes,
  shorter than the 512 bytes kept for the counters (\<open>2^32 - 78\<close> slots over an empty
  data region).
\<close>

theorem create_validation_counterexample:
  "rte_ring_create 524 4
     = Inr \<lparr>size_r = 3, mask_r = 2, capacity = 2, elemlen = 4,
            prod_head = 0, prod_tail = 0, cons_head = 0, cons_tail = 0,
            data = replicate 12 0\<rparr> \<and>
   rte_ring_create 512 4
     = Inr \<lparr>size_r = 0, mask_r = 4294967295, capacity = 4294967295, elemlen = 4,
            prod_head = 0, prod_tail = 0, cons_head = 0, cons_tail = 0,
            data = []\<rparr> \<and>
   rte_ring_create 200 4
     = Inr \<lparr>size_r = 4294967218, mask_r = 4294967217, capacity = 4294967217, elemlen = 4,
            prod_head = 0, prod_tail = 0, cons_head = 0, cons_tail = 0,
            data = []\<rparr>"
  by (intro conjI) (simp_all add: rte_ring_create_def)

text \<open>
  Calls made one after another by one thread. Start from a ring created with an
  element size of at least 1 and a block of at least 512 bytes plus one element, and run
  any sequence of enqueues and dequeues, each call to its end before the next begins. The run never spins for ever; it returns a ring
  whenever every call brings a table for the count it asks; and in the ring it returns
  each tail equals its head, all four counters are below the slot count, and the
  occupied count \<^verbatim>\<open>(prod_tail - cons_head + size) % size\<close> (the \<open>entries\<close> of a
  dequeue, the usage that \<^verbatim>\<open>ring_info\<close> prints) equals the number of elements taken
  in minus the number given out, which is at least 0 and at most \<open>capacity\<close>.
\<close>

lemma occupancy_within_capacity:
  assumes e: "0 < sint elem_size" and t: "512 + sint elem_size \<le> sint storage_len"
    and c: "rte_ring_create storage_len elem_size = Inr r0"
  shows "run_ops r0 0 xs \<noteq> None \<and>
         ((\<forall>x\<in>set xs. table_fits r0 x) \<longrightarrow> (\<exists>r held. run_ops r0 0 xs = Some (Inr (r, held)))) \<and>
         (\<forall>r held. run_ops r0 0 xs = Some (Inr (r, held)) \<longrightarrow>
            quiescent r \<and> size_r r = size_r r0 \<and> capacity r = capacity r0 \<and>
            entries r = word_of_int held \<and> ring_usage r = Inr (word_of_int held) \<and>
            0 \<le> held \<and> held \<le> uint (capacity r))"
proof (intro conjI allI impI)
  note cr = create_valid_wf [OF e t c]
  have wf0: "ring_wf r0" and q0: "quiescent r0" using cr by simp_all
  have e0: "entries r0 = 0"
    using wf0 q0 cr(5,6) by (intro entries_fresh) (simp_all add: ring_wf_def quiescent_def)
  show "run_ops r0 0 xs \<noteq> None" using wf0 q0 by (rule run_ops_returns)
  show "\<exists>r held. run_ops r0 0 xs = Some (Inr (r, held))" if "\<forall>x\<in>set xs. table_fits r0 x"
    using wf0 q0 that by (rule run_ops_ok)
  fix r held
  assume run: "run_ops r0 0 xs = Some (Inr (r, held))"
  note inv = run_ops_inv [OF wf0 q0 run]
  from inv have wf: "ring_wf r" and q: "quiescent r" by simp_all
  from inv e0 have held: "held = uint (entries r)" by simp
  show "quiescent r" by (rule q)
  show "size_r r = size_r r0" "capacity r = capacity r0" using inv by simp_all
  show "entries r = word_of_int held" using held by simp
  show "ring_usage r = Inr (word_of_int held)"
    using ring_usage_quiescent [OF wf q] held by simp
  show "0 \<le> held" using held by simp
  have "entries r \<le> capacity r"
    unfolding entries_def using wf by (intro mod_le_capacity) (simp_all add: ring_wf_def)
  then show "held \<le> uint (capacity r)" using held by (simp add: word_le_def)
qed

lemma occupancy_within_capacity_example:
  "run_ops (ring8 0 0 0 0 [0, 0, 0, 0, 0, 0, 0, 0]) 0
     [Enqueue (ints_bytes [1, 2, 3, 4, 5, 6, 7]) 7 RTE_RING_QUEUE_FIXED,
      Dequeue (ints_bytes [0, 0, 0]) 3 RTE_RING_QUEUE_FIXED,
      Enqueue (ints_bytes [8, 9, 10]) 3 RTE_RING_QUEUE_FIXED]
   = Some (Inr (ring8 2 2 3 3 [9, 10, 3, 4, 5, 6, 7, 8], 7)) \<and>
   quiescent (ring8 2 2 3 3 [9, 10, 3, 4, 5, 6, 7, 8]) \<and>
   ring_usage (ring8 2 2 3 3 [9, 10, 3, 4, 5, 6, 7, 8]) = Inr (word_of_int 7) \<and>
   (7 :: int) \<le> uint (capacity (ring8 2 2 3 3 [9, 10, 3, 4, 5, 6, 7, 8]))"
proof -
  have e: "0 < sint (4 :: 32 word)" and t: "512 + sint (4 :: 32 word) \<le> sint (544 :: 32 word)"
    by simp_all
  note w = occupancy_within_capacity [OF e t create_ring8,
      of "[Enqueue (ints_bytes [1, 2, 3, 4, 5, 6, 7]) 7 RTE_RING_QUEUE_FIXED,
           Dequeue (ints_bytes [0, 0, 0]) 3 RTE_RING_QUEUE_FIXED,
           Enqueue (ints_bytes [8, 9, 10]) 3 RTE_RING_QUEUE_FIXED]"]
  from w [THEN conjunct2, THEN conjunct2, rule_format, OF run_scenario_a] run_scenario_a
  show ?thesis by blast
qed

text \<open>
  Claim C3. The claim: at every quiescent point the occupied count
  \<open>(producer_tail - consumer_head) mod 2^32\<close> is at most the capacity. The code: on the
  fresh ring of 8 slots, after 7 elements in, 7 out and 3 in, no reservation is in
  flight, the producer tail is 2 and the consumer head 7, and their difference modulo
  \<open>2^32\<close> is 4294967291, above the capacity 7.
\<close>

theorem occupancy_difference_counterexample:
  "rte_ring_create 544 4 = Inr (ring8 0 0 0 0 [0, 0, 0, 0, 0, 0, 0, 0]) \<and>
   run_ops (ring8 0 0 0 0 [0, 0, 0, 0, 0, 0, 0, 0]) 0
     [Enqueue (ints_bytes [1, 2, 3, 4, 5, 6, 7]) 7 RTE_RING_QUEUE_FIXED,
      Dequeue (ints_bytes [0, 0, 0, 0, 0, 0, 0]) 7 RTE_RING_QUEUE_FIXED,
      Enqueue (ints_bytes [8, 9, 10]) 3 RTE_RING_QUEUE_FIXED]
   = Some (Inr (ring8 2 2 7 7 [9, 10, 3, 4, 5, 6, 7, 8], 3)) \<and>
   prod_tail (ring8 2 2 7 7 [9, 10, 3, 4, 5, 6, 7, 8])
     - cons_head (ring8 2 2 7 7 [9, 10, 3, 4, 5, 6, 7, 8]) = 4294967291 \<and>
   \<not> prod_tail (ring8 2 2 7 7 [9, 10, 3, 4, 5, 6, 7, 8])
       - cons_head (ring8 2 2 7 7 [9, 10, 3, 4, 5, 6, 7, 8])
     \<le> capacity (ring8 2 2 7 7 [9, 10, 3, 4, 5, 6, 7, 8])"
proof (intro conjI)
  show "rte_ring_create 544 4 = Inr (ring8 0 0 0 0 [0, 0, 0, 0, 0, 0, 0, 0])"
    by (rule create_ring8)
  show "run_ops (ring8 0 0 0 0 [0, 0, 0, 0, 0, 0, 0, 0]) 0
     [Enqueue (ints_bytes [1, 2, 3, 4, 5, 6, 7]) 7 RTE_RING_QUEUE_FIXED,
      Dequeue (ints_bytes [0, 0, 0, 0, 0, 0, 0]) 7 RTE_RING_QUEUE_FIXED,
      Enqueue (ints_bytes [8, 9, 10]) 3 RTE_RING_QUEUE_FIXED]
   = Some (Inr (ring8 2 2 7 7 [9, 10, 3, 4, 5, 6, 7, 8], 3))"
    by (rule run_scenario_b)
qed (simp_all add: ring8_def)

text \<open>
  Claim C6. On an empty ring (all four counters equal, no reservation in flight),
  enqueueing exactly \<open>capacity\<close> elements returns \<open>capacity\<close>, dequeuing
  \<open>capacity\<close> elements then returns \<open>capacity\<close> too, under either behavior, and
  the ring is empty again: the four counters are equal, \<open>capacity\<close> slots further
  round the ring than where they started, and the usage is 0.
\<close>

theorem round_trip_restores_empty:
  assumes wf: "ring_wf r" and q: "quiescent r" and empty: "prod_head r = cons_head r"
    and src: "unat (capacity r) * unat (elemlen r) \<le> length src"
    and dst: "unat (capacity r) * unat (elemlen r) \<le> length dst"
  shows "\<exists>r1 r2 out.
           rte_ring_do_enqueue r src (capacity r) b1 = Some (Inr (r1, capacity r)) \<and>
           rte_ring_do_dequeue r1 dst (capacity r) b2 = Some (Inr (r2, out, capacity r)) \<and>
           prod_head r2 = prod_tail r2 \<and> prod_tail r2 = cons_head r2 \<and>
           cons_head r2 = cons_tail r2 \<and>
           cons_tail r2 = (prod_head r + capacity r) mod size_r r \<and>
           ring_usage r2 = Inr 0"
proof -
  have pt: "prod_tail r = prod_head r" and ct: "cons_tail r = cons_head r"
    and hs: "prod_head r < size_r r"
    using q by (simp_all add: quiescent_def)
  have s0: "size_r r \<noteq> 0" using wf by (simp add: ring_wf_def)
  have e0: "entries r = 0" using s0 pt empty by (simp add: entries_def)
  have "uint (free_entries r) = uint (capacity r)"
    using uint_free_entries [OF wf q] uint_capacity [OF wf] e0 by simp
  then have f: "free_entries r = capacity r" by (rule word_uint_eqI)
  have g1: "granted (capacity r) (free_entries r) b1 = capacity r"
    by (simp add: granted_def f)
  from do_enqueue_ok [OF wf pt src, of b1] obtain d where
    len: "length d = length (data r)"
    and enq: "rte_ring_do_enqueue r src (capacity r) b1 =
        Some (Inr (if capacity r = 0 then r
                   else r\<lparr>prod_head := (prod_head r + capacity r) mod size_r r,
                          prod_tail := (prod_head r + capacity r) mod size_r r,
                          data := d\<rparr>, capacity r))"
    unfolding g1 by blast
  define r1 where "r1 = (if capacity r = 0 then r
                   else r\<lparr>prod_head := (prod_head r + capacity r) mod size_r r,
                          prod_tail := (prod_head r + capacity r) mod size_r r,
                          data := d\<rparr>)"
  have enq1: "rte_ring_do_enqueue r src (capacity r) b1 = Some (Inr (r1, capacity r))"
    using enq by (simp only: r1_def)
  note st = enqueue_step [OF wf q enq1]
  from st have wf1: "ring_wf r1" and q1: "quiescent r1" and geo: "size_r r1 = size_r r"
    "capacity r1 = capacity r" "elemlen r1 = elemlen r" by simp_all
  from st e0 have "uint (entries r1) = uint (capacity r)" by simp
  then have en1: "entries r1 = capacity r" by (rule word_uint_eqI)
  have ct1: "cons_tail r1 = cons_head r1" using q1 by (simp add: quiescent_def)
  have dst1: "unat (capacity r) * unat (elemlen r1) \<le> length dst" using dst geo by simp
  have g2: "granted (capacity r) (entries r1) b2 = capacity r"
    by (simp add: granted_def en1)
  from do_dequeue_ok [OF wf1 ct1 dst1, of b2] obtain out where
    deq: "rte_ring_do_dequeue r1 dst (capacity r) b2 =
        Some (Inr (if capacity r = 0 then r1
                   else r1\<lparr>cons_head := (cons_head r1 + capacity r) mod size_r r1,
                           cons_tail := (cons_head r1 + capacity r) mod size_r r1\<rparr>,
                   out, capacity r))"
    unfolding g2 by blast
  define r2 where "r2 = (if capacity r = 0 then r1
                   else r1\<lparr>cons_head := (cons_head r1 + capacity r) mod size_r r1,
                           cons_tail := (cons_head r1 + capacity r) mod size_r r1\<rparr>)"
  have deq1: "rte_ring_do_dequeue r1 dst (capacity r) b2 = Some (Inr (r2, out, capacity r))"
    using deq by (simp only: r2_def)
  have hmod: "prod_head r mod size_r r = prod_head r" using hs by (rule mod_word_less)
  have counters: "prod_head r2 = (prod_head r + capacity r) mod size_r r"
    "prod_tail r2 = (prod_head r + capacity r) mod size_r r"
    "cons_head r2 = (prod_head r + capacity r) mod size_r r"
    "cons_tail r2 = (prod_head r + capacity r) mod size_r r"
    using pt ct empty hmod by (simp_all add: r2_def r1_def)
  have s2: "size_r r2 = size_r r" by (simp add: r2_def r1_def)
  have "ring_usage r2 = Inr 0" using s0 by (simp add: ring_usage_def counters s2)
  with enq1 deq1 counters show ?thesis by (intro exI [of _ r1] exI [of _ r2] exI [of _ out]) simp
qed

theorem round_trip_restores_empty_witness:
  "\<exists>r1 r2 out.
     rte_ring_do_enqueue (ring8 0 0 0 0 [0, 0, 0, 0, 0, 0, 0, 0])
         (ints_bytes [1, 2, 3, 4, 5, 6, 7]) 7 RTE_RING_QUEUE_FIXED = Some (Inr (r1, 7)) \<and>
     rte_ring_do_dequeue r1 (ints_bytes [0, 0, 0, 0, 0, 0, 0]) 7 RTE_RING_QUEUE_FIXED
       = Some (Inr (r2, out, 7)) \<and>
     prod_head r2 = prod_tail r2 \<and> prod_tail r2 = cons_head r2 \<and> cons_head r2 = cons_tail r2 \<and>
     cons_tail r2 = 7 \<and> ring_usage r2 = Inr 0"
proof -
  let ?r = "ring8 0 0 0 0 [0, 0, 0, 0, 0, 0, 0, 0]"
  have wf: "ring_wf ?r" by (rule ring8_wf)
  have q: "quiescent ?r" and empty: "prod_head ?r = cons_head ?r"
    by (simp_all add: quiescent_def ring8_def)
  have src: "unat (capacity ?r) * unat (elemlen ?r) \<le> length (ints_bytes [1, 2, 3, 4, 5, 6, 7])"
    and dst: "unat (capacity ?r) * unat (elemlen ?r) \<le> length (ints_bytes [0, 0, 0, 0, 0, 0, 0])"
    by (simp_all add: ring8_def ints_bytes_def int_bytes_def)
  have c: "capacity ?r = 7" and h: "(prod_head ?r + 7) mod size_r ?r = 7"
    by (simp_all add: ring8_def)
  from round_trip_restores_empty [OF wf q empty src dst, of RTE_RING_QUEUE_FIXED RTE_RING_QUEUE_FIXED]
  show ?thesis unfolding c h .
qed

end
